theory Spec2Isabelle
  imports Complex_Main "HOL-Library.Word"
begin

section \<open>Floating-point values of the benchmark harness\<close>

text \<open>
  \<^verbatim>\<open>cpp/bench.cxx\<close> computes with \<^verbatim>\<open>double\<close> throughout and stores into arrays of
  narrower scalar types. A value is a NaN, an infinity or a finite real; a format is a
  precision (bits of the significand, the hidden bit included) and a largest exponent.
  Results are rounded to nearest, ties to even, with gradual underflow and overflow to
  infinity. The two zeros are one value here: the only zero the harness can divide by is
  the square root of a sum of squares started at \<open>+0\<close>, a positive zero, and it takes no
  sign bit and prints none, so the sign of a zero is not observed by anything below.
\<close>

datatype fp = NaN | PInf | NInf | Fin real

record format =
  prec :: nat
  emax :: int

definition binary16 :: format where
  "binary16 = \<lparr>prec = 11, emax = 15\<rparr>"

definition binary32 :: format where
  "binary32 = \<lparr>prec = 24, emax = 127\<rparr>"

definition binary64 :: format where
  "binary64 = \<lparr>prec = 53, emax = 1023\<rparr>"

definition pow2 :: "int \<Rightarrow> real" where
  "pow2 e = 2 powi e"

text \<open>The exponent of the binade of a positive real: \<open>2 ^ e \<le> x < 2 ^ (e + 1)\<close>.\<close>

function ilog2 :: "real \<Rightarrow> int" where
  "ilog2 x = (if x \<le> 0 then 0 else if 2 \<le> x then ilog2 (x / 2) + 1
              else if x < 1 then ilog2 (x * 2) - 1 else 0)"
  by pat_completeness auto
termination
proof (relation "measure (\<lambda>x. if 1 \<le> x then nat \<lfloor>x\<rfloor> else nat \<lceil>1 / x\<rceil> + 1)")
  show "wf (measure (\<lambda>x::real. if 1 \<le> x then nat \<lfloor>x\<rfloor> else nat \<lceil>1 / x\<rceil> + 1))"
    by simp
next
  fix x :: real
  assume "\<not> x \<le> 0" "2 \<le> x"
  then have "\<lfloor>x / 2\<rfloor> < \<lfloor>x\<rfloor>" by linarith
  with \<open>2 \<le> x\<close>
  show "(x / 2, x) \<in> measure (\<lambda>x. if 1 \<le> x then nat \<lfloor>x\<rfloor> else nat \<lceil>1 / x\<rceil> + 1)"
    by auto
next
  fix x :: real
  assume a: "\<not> x \<le> 0" "\<not> 2 \<le> x" "x < 1"
  show "(x * 2, x) \<in> measure (\<lambda>x. if 1 \<le> x then nat \<lfloor>x\<rfloor> else nat \<lceil>1 / x\<rceil> + 1)"
  proof (cases "1 \<le> x * 2")
    case True
    then have "\<lfloor>x * 2\<rfloor> = 1" using a by linarith
    moreover have "1 \<le> \<lceil>1 / x\<rceil>" using a by (simp add: ceiling_le_iff le_ceiling_iff)
    ultimately show ?thesis using a True by auto
  next
    case False
    define y where "y = 1 / x"
    have y: "2 < y" using a False by (simp add: y_def field_simps)
    have "of_int \<lceil>y / 2\<rceil> < y / 2 + 1" by linarith
    also have "\<dots> \<le> y" using y by simp
    also have "\<dots> \<le> of_int \<lceil>y\<rceil>" by linarith
    finally have "\<lceil>y / 2\<rceil> < \<lceil>y\<rceil>" by simp
    moreover have "1 / (x * 2) = y / 2" by (simp add: y_def)
    ultimately show ?thesis using a False by auto
  qed
qed

declare ilog2.simps [simp del]

text \<open>Rounding a real to the nearest integer, a tie going to the even neighbour.\<close>

definition rne :: "real \<Rightarrow> int" where
  "rne q = (let n = \<lfloor>q\<rfloor>; r = q - of_int n
            in if r < 1 / 2 then n else if 1 / 2 < r then n + 1
               else if even n then n else n + 1)"

text \<open>
  Rounding a real into a format. Below the smallest normal binade the spacing stays that
  of the smallest normal binade (subnormals); a result that reaches
  \<open>2 ^ (emax + 1)\<close> is an infinity.
\<close>

definition fround :: "format \<Rightarrow> real \<Rightarrow> fp" where
  "fround fmt x =
     (if x = 0 then Fin 0
      else let e = max (ilog2 \<bar>x\<bar>) (1 - emax fmt);
               ulp = pow2 (e - int (prec fmt) + 1);
               y = of_int (rne (x / ulp)) * ulp
           in if pow2 (emax fmt + 1) \<le> \<bar>y\<bar> then (if 0 < x then PInf else NInf) else Fin y)"

text \<open>Conversion of a floating-point value to another format (\<^verbatim>\<open>static_cast\<close>, return).\<close>

fun fcast :: "format \<Rightarrow> fp \<Rightarrow> fp" where
  "fcast fmt (Fin x) = fround fmt x"
| "fcast fmt v = v"

fun fadd :: "format \<Rightarrow> fp \<Rightarrow> fp \<Rightarrow> fp" where
  "fadd fmt NaN _ = NaN"
| "fadd fmt _ NaN = NaN"
| "fadd fmt PInf NInf = NaN"
| "fadd fmt NInf PInf = NaN"
| "fadd fmt PInf _ = PInf"
| "fadd fmt NInf _ = NInf"
| "fadd fmt (Fin x) PInf = PInf"
| "fadd fmt (Fin x) NInf = NInf"
| "fadd fmt (Fin x) (Fin y) = fround fmt (x + y)"

fun fsub :: "format \<Rightarrow> fp \<Rightarrow> fp \<Rightarrow> fp" where
  "fsub fmt NaN _ = NaN"
| "fsub fmt _ NaN = NaN"
| "fsub fmt PInf PInf = NaN"
| "fsub fmt NInf NInf = NaN"
| "fsub fmt PInf _ = PInf"
| "fsub fmt NInf _ = NInf"
| "fsub fmt (Fin x) PInf = NInf"
| "fsub fmt (Fin x) NInf = PInf"
| "fsub fmt (Fin x) (Fin y) = fround fmt (x - y)"

fun fmul :: "format \<Rightarrow> fp \<Rightarrow> fp \<Rightarrow> fp" where
  "fmul fmt NaN _ = NaN"
| "fmul fmt _ NaN = NaN"
| "fmul fmt PInf PInf = PInf"
| "fmul fmt PInf NInf = NInf"
| "fmul fmt NInf PInf = NInf"
| "fmul fmt NInf NInf = PInf"
| "fmul fmt PInf (Fin y) = (if y = 0 then NaN else if 0 < y then PInf else NInf)"
| "fmul fmt NInf (Fin y) = (if y = 0 then NaN else if 0 < y then NInf else PInf)"
| "fmul fmt (Fin x) PInf = (if x = 0 then NaN else if 0 < x then PInf else NInf)"
| "fmul fmt (Fin x) NInf = (if x = 0 then NaN else if 0 < x then NInf else PInf)"
| "fmul fmt (Fin x) (Fin y) = fround fmt (x * y)"

fun fdiv :: "format \<Rightarrow> fp \<Rightarrow> fp \<Rightarrow> fp" where
  "fdiv fmt NaN _ = NaN"
| "fdiv fmt _ NaN = NaN"
| "fdiv fmt PInf (Fin y) = (if 0 \<le> y then PInf else NInf)"
| "fdiv fmt NInf (Fin y) = (if 0 \<le> y then NInf else PInf)"
| "fdiv fmt PInf _ = NaN"
| "fdiv fmt NInf _ = NaN"
| "fdiv fmt (Fin x) PInf = Fin 0"
| "fdiv fmt (Fin x) NInf = Fin 0"
| "fdiv fmt (Fin x) (Fin y) =
     (if y = 0 then (if x = 0 then NaN else if 0 < x then PInf else NInf)
      else fround fmt (x / y))"

text \<open>\<^verbatim>\<open>std::sqrt\<close>: the correctly rounded square root.\<close>

fun fsqrt :: "format \<Rightarrow> fp \<Rightarrow> fp" where
  "fsqrt fmt NaN = NaN"
| "fsqrt fmt PInf = PInf"
| "fsqrt fmt NInf = NaN"
| "fsqrt fmt (Fin x) = (if x < 0 then NaN else fround fmt (sqrt x))"

text \<open>\<^verbatim>\<open>std::abs\<close> on a double.\<close>

fun fabs :: "fp \<Rightarrow> fp" where
  "fabs NaN = NaN"
| "fabs PInf = PInf"
| "fabs NInf = PInf"
| "fabs (Fin x) = Fin \<bar>x\<bar>"

text \<open>The comparisons \<^verbatim>\<open><\<close>, \<^verbatim>\<open>>\<close> and \<^verbatim>\<open>!=\<close>: every ordered comparison with a NaN is
  false, and \<^verbatim>\<open>!=\<close> with a NaN is true.\<close>

fun flt :: "fp \<Rightarrow> fp \<Rightarrow> bool" where
  "flt NaN _ = False"
| "flt _ NaN = False"
| "flt _ NInf = False"
| "flt PInf _ = False"
| "flt NInf _ = True"
| "flt (Fin x) PInf = True"
| "flt (Fin x) (Fin y) = (x < y)"

definition fgt :: "fp \<Rightarrow> fp \<Rightarrow> bool" where
  "fgt a b = flt b a"

fun fne :: "fp \<Rightarrow> fp \<Rightarrow> bool" where
  "fne NaN _ = True"
| "fne _ NaN = True"
| "fne x y = (x \<noteq> y)"

text \<open>Conversions of an \<^verbatim>\<open>int\<close> and of a \<^verbatim>\<open>std::size_t\<close> to \<^verbatim>\<open>double\<close>.\<close>

definition double_of_int :: "int \<Rightarrow> fp" where
  "double_of_int k = fround binary64 (of_int k)"

definition double_of_size :: "64 word \<Rightarrow> fp" where
  "double_of_size w = fround binary64 (of_nat (unat w))"

section \<open>Scalar types and the pair of vectors\<close>

text \<open>
  \<^verbatim>\<open>enum class function_kind_t\<close>, and the template argument \<^verbatim>\<open>scalar_at\<close>: a
  floating-point type of some format, or an integral type of some width in bits, signed
  or not (\<^verbatim>\<open>std::is_integral_v\<close> tells them apart). A stored element is a
  floating-point value or an integer.
\<close>

datatype function_kind_t = distance_k | complex_dot_k | haversine_k

datatype scalar_t = FloatT format | IntT nat bool

datatype scalar = SF fp | SI int

fun is_integral_v :: "scalar_t \<Rightarrow> bool" where
  "is_integral_v (IntT w sg) = True"
| "is_integral_v (FloatT fmt) = False"

text \<open>\<^verbatim>\<open>sizeof(scalar_at)\<close>, in bytes; a format of precision \<open>p\<close> and largest exponent
  \<open>2 ^ (w - 1) - 1\<close> takes \<open>p + w\<close> bits.\<close>

fun sizeof :: "scalar_t \<Rightarrow> nat" where
  "sizeof (IntT w sg) = w div 8"
| "sizeof (FloatT fmt) = (prec fmt + nat (ilog2 (of_int (emax fmt + 1))) + 1) div 8"

text \<open>\<^verbatim>\<open>static_cast<scalar_at>(rand())\<close> and \<^verbatim>\<open>scalar_at a[dimensions_ak]{}\<close> for an
  integral type: the integer is reduced modulo \<open>2 ^ w\<close> into the range of the type.\<close>

definition wrap_int :: "nat \<Rightarrow> bool \<Rightarrow> int \<Rightarrow> int" where
  "wrap_int w sg k =
     (if sg then (k + 2 ^ (w - 1)) mod 2 ^ w - 2 ^ (w - 1) else k mod 2 ^ w)"

fun zero_scalar :: "scalar_t \<Rightarrow> scalar" where
  "zero_scalar (IntT w sg) = SI 0"
| "zero_scalar (FloatT fmt) = SF (Fin 0)"

text \<open>An element read inside a \<^verbatim>\<open>double\<close> expression (\<^verbatim>\<open>a[i] / a2_sum\<close>).\<close>

fun to_double :: "scalar \<Rightarrow> fp" where
  "to_double (SF x) = x"
| "to_double (SI k) = double_of_int k"

record vectors_pair_gt =
  a :: "scalar list"
  b :: "scalar list"

definition dimensions :: "nat \<Rightarrow> nat" where
  "dimensions dimensions_ak = dimensions_ak"

definition size_bytes :: "scalar_t \<Rightarrow> nat \<Rightarrow> 64 word" where
  "size_bytes scalar_at dimensions_ak = of_nat dimensions_ak * of_nat (sizeof scalar_at)"

section \<open>The input generator\<close>

text \<open>
  \<^verbatim>\<open>rand()\<close> is the C library's: its results are a sequence of integers, \<open>rnd k\<close> the
  result of the \<open>k\<close>-th call counted from the entry of \<^verbatim>\<open>randomize\<close>, and
  \<^verbatim>\<open>RAND_MAX\<close> is the platform's constant. Each loop is a fold over its indices; the
  state of the first loop is the number of calls of \<^verbatim>\<open>rand()\<close> made so far, the two
  arrays and the two running sums.
\<close>

type_synonym fill_state = "nat \<times> scalar list \<times> scalar list \<times> fp \<times> fp"

definition fill_integral :: "nat \<Rightarrow> bool \<Rightarrow> (nat \<Rightarrow> int) \<Rightarrow> fill_state \<Rightarrow> nat \<Rightarrow> fill_state" where
  "fill_integral w sg rnd s i =
     (case s of (k, va, vb, a2_sum, b2_sum) \<Rightarrow>
        let va = va[i := SI (wrap_int w sg (rnd k))];
            vb = vb[i := SI (wrap_int w sg (rnd (k + 1)))]
        in (k + 2, va, vb, a2_sum, b2_sum))"

definition fill_floating :: "format \<Rightarrow> int \<Rightarrow> (nat \<Rightarrow> int) \<Rightarrow> fill_state \<Rightarrow> nat \<Rightarrow> fill_state" where
  "fill_floating fmt RAND_MAX rnd s i =
     (case s of (k, va, vb, a2_sum, b2_sum) \<Rightarrow>
        let ai = fdiv binary64 (double_of_int (rnd k)) (double_of_int RAND_MAX);
            bi = fdiv binary64 (double_of_int (rnd (k + 1))) (double_of_int RAND_MAX);
            a2_sum = fadd binary64 a2_sum (fmul binary64 ai ai);
            b2_sum = fadd binary64 b2_sum (fmul binary64 bi bi);
            va = va[i := SF (fcast fmt ai)];
            vb = vb[i := SF (fcast fmt bi)]
        in (k + 2, va, vb, a2_sum, b2_sum))"

definition normalize_step :: "format \<Rightarrow> fp \<Rightarrow> fp \<Rightarrow> scalar list \<times> scalar list \<Rightarrow> nat
    \<Rightarrow> scalar list \<times> scalar list" where
  "normalize_step fmt a2_sum b2_sum s i =
     (case s of (va, vb) \<Rightarrow>
        let va = va[i := SF (fcast fmt (fdiv binary64 (to_double (va ! i)) a2_sum))];
            vb = vb[i := SF (fcast fmt (fdiv binary64 (to_double (vb ! i)) b2_sum))]
        in (va, vb))"

fun randomize :: "scalar_t \<Rightarrow> nat \<Rightarrow> int \<Rightarrow> (nat \<Rightarrow> int) \<Rightarrow> vectors_pair_gt" where
  "randomize (IntT w sg) dimensions_ak RAND_MAX rnd =
     (let zeros = replicate dimensions_ak (zero_scalar (IntT w sg));
          s = foldl (fill_integral w sg rnd) (0, zeros, zeros, Fin 0, Fin 0) [0..<dimensions_ak]
      in case s of (k, va, vb, a2_sum, b2_sum) \<Rightarrow> \<lparr>a = va, b = vb\<rparr>)"
| "randomize (FloatT fmt) dimensions_ak RAND_MAX rnd =
     (let zeros = replicate dimensions_ak (zero_scalar (FloatT fmt));
          s = foldl (fill_floating fmt RAND_MAX rnd) (0, zeros, zeros, Fin 0, Fin 0)
                [0..<dimensions_ak]
      in case s of (k, va, vb, a2_sum, b2_sum) \<Rightarrow>
           let a2_sum = fsqrt binary64 a2_sum;
               b2_sum = fsqrt binary64 b2_sum;
               n = foldl (normalize_step fmt a2_sum b2_sum) (va, vb) [0..<dimensions_ak]
           in \<lparr>a = fst n, b = snd n\<rparr>)"

section \<open>The measurement routine\<close>

text \<open>
  A metric function is opaque: it reads the two vectors, the dimension and the two slots
  of the output buffer, and leaves the buffer's new contents. It may keep state of its
  own between calls (the type \<open>'w\<close>), so that two calls on the same input need not agree.
  The calls made are recorded in a log, with the buffer each one received; an iteration of
  the timed loop logs its start.
\<close>

type_synonym 'w metric_at =
  "'w \<Rightarrow> scalar list \<Rightarrow> scalar list \<Rightarrow> nat \<Rightarrow> fp \<times> fp \<Rightarrow> (fp \<times> fp) \<times> 'w"

datatype role = Baseline | Contender

datatype event = Invoked role "fp \<times> fp" | Iteration

record 'w exec =
  world :: 'w
  calls :: "event list"

text \<open>Modelled from the spec: the typedefs of \<^verbatim>\<open>simsimd/simsimd.h\<close> are not among the
  sources; the slots of the output buffer (\<^verbatim>\<open>simsimd_distance_t\<close>) are 64-bit floats
  and the scalar types are the 16-, 32- and 64-bit floats, the signed byte and the byte
  of a bit set.\<close>

definition simsimd_distance_t :: format where
  "simsimd_distance_t = binary64"

datatype simsimd_type =
  simsimd_f16_t | simsimd_f32_t | simsimd_f64_t | simsimd_i8_t | simsimd_b8_t

fun typedef_of :: "simsimd_type \<Rightarrow> scalar_t" where
  "typedef_of simsimd_f16_t = FloatT binary16"
| "typedef_of simsimd_f32_t = FloatT binary32"
| "typedef_of simsimd_f64_t = FloatT binary64"
| "typedef_of simsimd_i8_t = IntT 8 True"
| "typedef_of simsimd_b8_t = IntT 8 False"

text \<open>The two lambdas of \<^verbatim>\<open>measure\<close>; each returns a \<^verbatim>\<open>simsimd_f32_t\<close>, the 32-bit
  float.\<close>

definition call_baseline :: "'w metric_at \<Rightarrow> nat \<Rightarrow> vectors_pair_gt \<Rightarrow> 'w exec \<Rightarrow> fp \<times> 'w exec" where
  "call_baseline baseline dimensions_ak pair x =
     (let results = (Fin 0, Fin 0);
          r = baseline (world x) (a pair) (b pair) (dimensions dimensions_ak) results
      in (fcast binary32 (fadd simsimd_distance_t (fst (fst r)) (snd (fst r))),
          \<lparr>world = snd r, calls = calls x @ [Invoked Baseline results]\<rparr>))"

definition call_contender :: "'w metric_at \<Rightarrow> nat \<Rightarrow> vectors_pair_gt \<Rightarrow> 'w exec \<Rightarrow> fp \<times> 'w exec" where
  "call_contender metric dimensions_ak pair x =
     (let results = (Fin 0, Fin 0);
          r = metric (world x) (a pair) (b pair) (dimensions dimensions_ak) results
      in (fcast binary32 (fadd simsimd_distance_t (fst (fst r)) (snd (fst r))),
          \<lparr>world = snd r, calls = calls x @ [Invoked Contender results]\<rparr>))"

text \<open>
  \<^verbatim>\<open>benchmark::State\<close> as the routine sees it: the engine decides how many times the body
  of \<^verbatim>\<open>for (auto _ : state)\<close> runs, and the routine writes the named counters.
\<close>

datatype counter_flags = kDefaults | kIsRate

record counter =
  cvalue :: fp
  cflags :: counter_flags

record state =
  max_iterations :: nat
  counters :: "string \<rightharpoonup> counter"

text \<open>The timed loop; its state is \<^verbatim>\<open>c\<close>, \<^verbatim>\<open>iterations\<close> and the execution.\<close>

fun timed_loop :: "nat \<Rightarrow> 'w metric_at \<Rightarrow> nat \<Rightarrow> vectors_pair_gt \<Rightarrow> fp \<times> 64 word \<times> 'w exec
    \<Rightarrow> fp \<times> 64 word \<times> 'w exec" where
  "timed_loop 0 metric dimensions_ak pair s = s"
| "timed_loop (Suc n) metric dimensions_ak pair s =
     (case s of (c, iterations, x) \<Rightarrow>
        let r = call_contender metric dimensions_ak pair (x\<lparr>calls := calls x @ [Iteration]\<rparr>)
        in timed_loop n metric dimensions_ak pair (fst r, iterations + 1, snd r))"

definition measure_bm :: "scalar_t \<Rightarrow> nat \<Rightarrow> function_kind_t \<Rightarrow> int \<Rightarrow> (nat \<Rightarrow> int) \<Rightarrow> state
    \<Rightarrow> 'w metric_at \<Rightarrow> 'w metric_at \<Rightarrow> 'w exec \<Rightarrow> state \<times> 'w exec" where
  "measure_bm scalar_at dimensions_ak function_kind RAND_MAX rnd st metric baseline x =
     (let pair = randomize scalar_at dimensions_ak RAND_MAX rnd;
          rb = call_baseline baseline dimensions_ak pair x;
          c_baseline = fst rb;
          l = timed_loop (max_iterations st) metric dimensions_ak pair (Fin 0, 0, snd rb);
          c = fst l;
          iterations = fst (snd l);
          cs = counters st;
          cs = cs(''bytes'' \<mapsto>
                 \<lparr>cvalue = double_of_size (iterations * size_bytes scalar_at dimensions_ak * 2),
                  cflags = kIsRate\<rparr>);
          cs = cs(''pairs'' \<mapsto> \<lparr>cvalue = double_of_size iterations, cflags = kIsRate\<rparr>);
          delta = (if fgt (fabs (fsub binary64 c c_baseline)) (fround binary64 (1 / 10000))
                   then fabs (fsub binary64 c c_baseline) else Fin 0);
          error = (if fne delta (Fin 0) \<and> fne c_baseline (Fin 0)
                   then fdiv binary64 delta c_baseline else Fin 0);
          cs = cs(''abs_delta'' \<mapsto> \<lparr>cvalue = delta, cflags = kDefaults\<rparr>);
          cs = cs(''relative_error'' \<mapsto> \<lparr>cvalue = error, cflags = kDefaults\<rparr>)
      in (st\<lparr>counters := cs\<rparr>, snd (snd l)))"

section \<open>The registration catalog\<close>

text \<open>
  What \<^verbatim>\<open>bm::RegisterBenchmark(...)->MinTime(...)->Threads(...)\<close> hands to the engine:
  the name, the instance of \<^verbatim>\<open>measure\<close> (scalar type, dimension, function kind), the two
  function pointers (by symbol), the minimum time in seconds and the number of threads.
\<close>

record benchmark_case =
  bench_name :: string
  bench_scalar :: simsimd_type
  bench_dimensions :: nat
  bench_kind :: function_kind_t
  bench_metric :: string
  bench_baseline :: string
  bench_MinTime :: nat
  bench_Threads :: nat

text \<open>\<^verbatim>\<open>std::to_string\<close> of a \<^verbatim>\<open>std::size_t\<close>: its decimal digits.\<close>

fun to_string :: "nat \<Rightarrow> string" where
  "to_string n = (if n < 10 then [''0123456789'' ! n]
                  else to_string (n div 10) @ [''0123456789'' ! (n mod 10)])"

declare to_string.simps [simp del]

definition RegisterBenchmark :: "benchmark_case \<Rightarrow> benchmark_case list \<Rightarrow> benchmark_case list" where
  "RegisterBenchmark c registry = registry @ [c]"

text \<open>
  \<^verbatim>\<open>register_\<close>. The statements after its \<^verbatim>\<open>return;\<close> are kept as the branch that the
  return cuts off.
\<close>

definition register_bm :: "simsimd_type \<Rightarrow> function_kind_t \<Rightarrow> nat \<Rightarrow> string \<Rightarrow> string \<Rightarrow> string
    \<Rightarrow> benchmark_case list \<Rightarrow> benchmark_case list" where
  "register_bm scalar_at function_kind hardware_concurrency name distance_func baseline_func
     registry =
     (let seconds = 10;
          threads = hardware_concurrency;
          name_dims = name @ ''_'' @ to_string (dimensions 1536) @ ''d'';
          registry = RegisterBenchmark
            \<lparr>bench_name = name_dims, bench_scalar = scalar_at, bench_dimensions = 1536,
             bench_kind = function_kind, bench_metric = distance_func,
             bench_baseline = baseline_func, bench_MinTime = seconds,
             bench_Threads = threads\<rparr> registry;
          returned = True
      in if returned then registry
         else
           let dims_bytes = 1536 div sizeof (typedef_of scalar_at);
               name_bytes = name @ ''_''
                 @ to_string (unat (size_bytes (typedef_of scalar_at) dims_bytes)) @ ''b''
           in RegisterBenchmark
                \<lparr>bench_name = name_bytes, bench_scalar = scalar_at,
                 bench_dimensions = dims_bytes, bench_kind = function_kind,
                 bench_metric = distance_func, bench_baseline = baseline_func,
                 bench_MinTime = seconds, bench_Threads = threads\<rparr> registry)"

text \<open>The calls of \<^verbatim>\<open>register_\<close> in \<^verbatim>\<open>main\<close>, one list for each conditional block, in the
  order of the source: scalar type, function kind, name, contender, baseline.\<close>

type_synonym registration = "simsimd_type \<times> function_kind_t \<times> string \<times> string \<times> string"

definition neon_cases :: "registration list" where
  "neon_cases =
     [(simsimd_f16_t, distance_k, ''neon_f16_dot'',
        ''simsimd_dot_f16_neon'', ''simsimd_dot_f16_accurate''),
      (simsimd_f16_t, distance_k, ''neon_f16_cos'',
        ''simsimd_cos_f16_neon'', ''simsimd_cos_f16_accurate''),
      (simsimd_f16_t, distance_k, ''neon_f16_l2sq'',
        ''simsimd_l2sq_f16_neon'', ''simsimd_l2sq_f16_accurate''),
      (simsimd_f16_t, distance_k, ''neon_f16_kl'',
        ''simsimd_kl_f16_neon'', ''simsimd_kl_f16_accurate''),
      (simsimd_f16_t, distance_k, ''neon_f16_js'',
        ''simsimd_js_f16_neon'', ''simsimd_js_f16_accurate''),
      (simsimd_f32_t, distance_k, ''neon_f32_dot'',
        ''simsimd_dot_f32_neon'', ''simsimd_dot_f32_accurate''),
      (simsimd_f32_t, distance_k, ''neon_f32_cos'',
        ''simsimd_cos_f32_neon'', ''simsimd_cos_f32_accurate''),
      (simsimd_f32_t, distance_k, ''neon_f32_l2sq'',
        ''simsimd_l2sq_f32_neon'', ''simsimd_l2sq_f32_accurate''),
      (simsimd_f32_t, distance_k, ''neon_f32_kl'',
        ''simsimd_kl_f32_neon'', ''simsimd_kl_f32_accurate''),
      (simsimd_f32_t, distance_k, ''neon_f32_js'',
        ''simsimd_js_f32_neon'', ''simsimd_js_f32_accurate''),
      (simsimd_i8_t, distance_k, ''neon_i8_cos'',
        ''simsimd_cos_i8_neon'', ''simsimd_cos_i8_accurate''),
      (simsimd_i8_t, distance_k, ''neon_i8_l2sq'',
        ''simsimd_l2sq_i8_neon'', ''simsimd_l2sq_i8_accurate''),
      (simsimd_b8_t, distance_k, ''neon_b8_hamming'',
        ''simsimd_hamming_b8_neon'', ''simsimd_hamming_b8_serial''),
      (simsimd_b8_t, distance_k, ''neon_b8_jaccard'',
        ''simsimd_jaccard_b8_neon'', ''simsimd_jaccard_b8_serial''),
      (simsimd_f32_t, complex_dot_k, ''neon_f32c_dot'',
        ''simsimd_dot_f32c_neon'', ''simsimd_dot_f32c_accurate'')]"

definition sve_cases :: "registration list" where
  "sve_cases =
     [(simsimd_f16_t, distance_k, ''sve_f16_dot'',
        ''simsimd_dot_f16_sve'', ''simsimd_dot_f16_accurate''),
      (simsimd_f16_t, distance_k, ''sve_f16_cos'',
        ''simsimd_cos_f16_sve'', ''simsimd_cos_f16_accurate''),
      (simsimd_f16_t, distance_k, ''sve_f16_l2sq'',
        ''simsimd_l2sq_f16_sve'', ''simsimd_l2sq_f16_accurate''),
      (simsimd_f32_t, distance_k, ''sve_f32_dot'',
        ''simsimd_dot_f32_sve'', ''simsimd_dot_f32_accurate''),
      (simsimd_f32_t, distance_k, ''sve_f32_cos'',
        ''simsimd_cos_f32_sve'', ''simsimd_cos_f32_accurate''),
      (simsimd_f32_t, distance_k, ''sve_f32_l2sq'',
        ''simsimd_l2sq_f32_sve'', ''simsimd_l2sq_f32_accurate''),
      (simsimd_f64_t, distance_k, ''sve_f64_dot'',
        ''simsimd_dot_f64_sve'', ''simsimd_dot_f64_serial''),
      (simsimd_f64_t, distance_k, ''sve_f64_cos'',
        ''simsimd_cos_f64_sve'', ''simsimd_cos_f64_serial''),
      (simsimd_f64_t, distance_k, ''sve_f64_l2sq'',
        ''simsimd_l2sq_f64_sve'', ''simsimd_l2sq_f64_serial''),
      (simsimd_b8_t, distance_k, ''sve_b8_hamming'',
        ''simsimd_hamming_b8_sve'', ''simsimd_hamming_b8_serial''),
      (simsimd_b8_t, distance_k, ''sve_b8_jaccard'',
        ''simsimd_jaccard_b8_sve'', ''simsimd_jaccard_b8_serial'')]"

definition haswell_cases :: "registration list" where
  "haswell_cases =
     [(simsimd_f16_t, distance_k, ''avx2_f16_dot'',
        ''simsimd_dot_f16_haswell'', ''simsimd_dot_f16_accurate''),
      (simsimd_f16_t, distance_k, ''avx2_f16_cos'',
        ''simsimd_cos_f16_haswell'', ''simsimd_cos_f16_accurate''),
      (simsimd_f16_t, distance_k, ''avx2_f16_l2sq'',
        ''simsimd_l2sq_f16_haswell'', ''simsimd_l2sq_f16_accurate''),
      (simsimd_f16_t, distance_k, ''avx2_f16_kl'',
        ''simsimd_kl_f16_haswell'', ''simsimd_kl_f16_accurate''),
      (simsimd_f16_t, distance_k, ''avx2_f16_js'',
        ''simsimd_js_f16_haswell'', ''simsimd_js_f16_accurate''),
      (simsimd_i8_t, distance_k, ''avx2_i8_cos'',
        ''simsimd_cos_i8_haswell'', ''simsimd_cos_i8_accurate''),
      (simsimd_i8_t, distance_k, ''avx2_i8_l2sq'',
        ''simsimd_l2sq_i8_haswell'', ''simsimd_l2sq_i8_accurate''),
      (simsimd_b8_t, distance_k, ''avx2_b8_hamming'',
        ''simsimd_hamming_b8_haswell'', ''simsimd_hamming_b8_serial''),
      (simsimd_b8_t, distance_k, ''avx2_b8_jaccard'',
        ''simsimd_jaccard_b8_haswell'', ''simsimd_jaccard_b8_serial'')]"

definition sapphire_cases :: "registration list" where
  "sapphire_cases =
     [(simsimd_f16_t, distance_k, ''avx512_f16_dot'',
        ''simsimd_dot_f16_sapphire'', ''simsimd_dot_f16_accurate''),
      (simsimd_f16_t, distance_k, ''avx512_f16_cos'',
        ''simsimd_cos_f16_sapphire'', ''simsimd_cos_f16_accurate''),
      (simsimd_f16_t, distance_k, ''avx512_f16_l2sq'',
        ''simsimd_l2sq_f16_sapphire'', ''simsimd_l2sq_f16_accurate''),
      (simsimd_f16_t, distance_k, ''avx512_f16_kl'',
        ''simsimd_kl_f16_sapphire'', ''simsimd_kl_f16_accurate''),
      (simsimd_f16_t, distance_k, ''avx512_f16_js'',
        ''simsimd_js_f16_sapphire'', ''simsimd_js_f16_accurate'')]"

definition ice_cases :: "registration list" where
  "ice_cases =
     [(simsimd_i8_t, distance_k, ''avx512_i8_cos'',
        ''simsimd_cos_i8_ice'', ''simsimd_cos_i8_accurate''),
      (simsimd_i8_t, distance_k, ''avx512_i8_l2sq'',
        ''simsimd_l2sq_i8_ice'', ''simsimd_l2sq_i8_accurate''),
      (simsimd_f64_t, distance_k, ''avx512_f64_dot'',
        ''simsimd_dot_f64_skylake'', ''simsimd_dot_f64_serial''),
      (simsimd_f64_t, distance_k, ''avx512_f64_cos'',
        ''simsimd_cos_f64_skylake'', ''simsimd_cos_f64_serial''),
      (simsimd_f64_t, distance_k, ''avx512_f64_l2sq'',
        ''simsimd_l2sq_f64_skylake'', ''simsimd_l2sq_f64_serial''),
      (simsimd_b8_t, distance_k, ''avx512_b8_hamming'',
        ''simsimd_hamming_b8_avx512'', ''simsimd_hamming_b8_serial''),
      (simsimd_b8_t, distance_k, ''avx512_b8_jaccard'',
        ''simsimd_jaccard_b8_avx512'', ''simsimd_jaccard_b8_serial'')]"

definition skylake_cases :: "registration list" where
  "skylake_cases =
     [(simsimd_f32_t, distance_k, ''avx512_f32_dot'',
        ''simsimd_dot_f32_skylake'', ''simsimd_dot_f32_accurate''),
      (simsimd_f32_t, distance_k, ''avx512_f32_cos'',
        ''simsimd_cos_f32_skylake'', ''simsimd_cos_f32_accurate''),
      (simsimd_f32_t, distance_k, ''avx512_f32_l2sq'',
        ''simsimd_l2sq_f32_skylake'', ''simsimd_l2sq_f32_accurate''),
      (simsimd_f32_t, distance_k, ''avx512_f32_kl'',
        ''simsimd_kl_f32_skylake'', ''simsimd_kl_f32_accurate''),
      (simsimd_f32_t, distance_k, ''avx512_f32_js'',
        ''simsimd_js_f32_skylake'', ''simsimd_js_f32_accurate'')]"

definition serial_cases :: "registration list" where
  "serial_cases =
     [(simsimd_f16_t, distance_k, ''serial_f16_dot'',
        ''simsimd_dot_f16_serial'', ''simsimd_dot_f16_accurate''),
      (simsimd_f16_t, distance_k, ''serial_f16_cos'',
        ''simsimd_cos_f16_serial'', ''simsimd_cos_f16_accurate''),
      (simsimd_f16_t, distance_k, ''serial_f16_l2sq'',
        ''simsimd_l2sq_f16_serial'', ''simsimd_l2sq_f16_accurate''),
      (simsimd_f16_t, distance_k, ''serial_f16_kl'',
        ''simsimd_kl_f16_serial'', ''simsimd_kl_f16_accurate''),
      (simsimd_f16_t, distance_k, ''serial_f16_js'',
        ''simsimd_js_f16_serial'', ''simsimd_js_f16_accurate''),
      (simsimd_f32_t, distance_k, ''serial_f32_dot'',
        ''simsimd_dot_f32_serial'', ''simsimd_dot_f32_accurate''),
      (simsimd_f32_t, distance_k, ''serial_f32_cos'',
        ''simsimd_cos_f32_serial'', ''simsimd_cos_f32_accurate''),
      (simsimd_f32_t, distance_k, ''serial_f32_l2sq'',
        ''simsimd_l2sq_f32_serial'', ''simsimd_l2sq_f32_accurate''),
      (simsimd_f32_t, distance_k, ''serial_f32_kl'',
        ''simsimd_kl_f32_serial'', ''simsimd_kl_f32_accurate''),
      (simsimd_f32_t, distance_k, ''serial_f32_js'',
        ''simsimd_js_f32_serial'', ''simsimd_js_f32_accurate''),
      (simsimd_f64_t, distance_k, ''serial_f64_dot'',
        ''simsimd_dot_f64_serial'', ''simsimd_dot_f64_serial''),
      (simsimd_f64_t, distance_k, ''serial_f64_cos'',
        ''simsimd_cos_f64_serial'', ''simsimd_cos_f64_serial''),
      (simsimd_f64_t, distance_k, ''serial_f64_l2sq'',
        ''simsimd_l2sq_f64_serial'', ''simsimd_l2sq_f64_serial''),
      (simsimd_i8_t, distance_k, ''serial_i8_cos'',
        ''simsimd_cos_i8_serial'', ''simsimd_cos_i8_accurate''),
      (simsimd_i8_t, distance_k, ''serial_i8_l2sq'',
        ''simsimd_l2sq_i8_serial'', ''simsimd_l2sq_i8_accurate''),
      (simsimd_f32_t, complex_dot_k, ''serial_f32c_dot'',
        ''simsimd_dot_f32c_serial'', ''simsimd_dot_f32c_accurate''),
      (simsimd_f16_t, complex_dot_k, ''serial_f16c_dot'',
        ''simsimd_dot_f16c_serial'', ''simsimd_dot_f16c_accurate''),
      (simsimd_b8_t, distance_k, ''serial_b8_hamming'',
        ''simsimd_hamming_b8_serial'', ''simsimd_hamming_b8_serial''),
      (simsimd_b8_t, distance_k, ''serial_b8_jaccard'',
        ''simsimd_jaccard_b8_serial'', ''simsimd_jaccard_b8_serial'')]"

definition register_all :: "nat \<Rightarrow> registration list \<Rightarrow> benchmark_case list \<Rightarrow> benchmark_case list" where
  "register_all hardware_concurrency rs registry =
     foldl (\<lambda>reg r. case r of (scalar_at, function_kind, name, distance_func, baseline_func) \<Rightarrow>
              register_bm scalar_at function_kind hardware_concurrency name distance_func
                baseline_func reg) registry rs"

section \<open>The entry point\<close>

text \<open>
  The build flags come from the absent header; the engine's argument parser and the
  machine's hardware concurrency are outside the program. \<^verbatim>\<open>bm::Initialize\<close> leaves the
  arguments it did not consume, and \<^verbatim>\<open>bm::ReportUnrecognizedArguments\<close> judges them.
\<close>

record build_flags =
  SIMSIMD_TARGET_NEON :: bool
  SIMSIMD_TARGET_SVE :: bool
  SIMSIMD_TARGET_HASWELL :: bool
  SIMSIMD_TARGET_SKYLAKE :: bool
  SIMSIMD_TARGET_ICE :: bool
  SIMSIMD_TARGET_SAPPHIRE :: bool
  SIMSIMD_NATIVE_F16 :: bool

record engine =
  Initialize :: "string list \<Rightarrow> string list"
  ReportUnrecognizedArguments :: "string list \<Rightarrow> bool"
  hardware_concurrency :: nat

datatype engine_call = RunSpecifiedBenchmarks "benchmark_case list" | Shutdown

record process =
  stdout :: "string list"
  registered :: "benchmark_case list"
  engine_calls :: "engine_call list"

definition flags :: "bool \<Rightarrow> string" where
  "flags f = (if f then ''true'' else ''false'')"

definition main :: "build_flags \<Rightarrow> engine \<Rightarrow> string list \<Rightarrow> int \<times> process" where
  "main cfg eng argv =
     (let out =
            [''Benchmarking Similarity Measures'', [],
             ''- Arm NEON support enabled: '' @ flags (SIMSIMD_TARGET_NEON cfg),
             ''- Arm SVE support enabled: '' @ flags (SIMSIMD_TARGET_SVE cfg),
             ''- x86 HASWELL support enabled: '' @ flags (SIMSIMD_TARGET_HASWELL cfg),
             ''- x86 SKYLAKE support enabled: '' @ flags (SIMSIMD_TARGET_SKYLAKE cfg),
             ''- x86 ICE support enabled: '' @ flags (SIMSIMD_TARGET_ICE cfg),
             ''- x86 SAPPHIRE support enabled: '' @ flags (SIMSIMD_TARGET_SAPPHIRE cfg),
             ''- Compiler supports F16: '' @ flags (SIMSIMD_NATIVE_F16 cfg), []];
          argv = Initialize eng argv
      in if ReportUnrecognizedArguments eng argv
         then (1, \<lparr>stdout = out, registered = [], engine_calls = []\<rparr>)
         else
           let hc = hardware_concurrency eng;
               reg = [];
               reg = (if SIMSIMD_TARGET_NEON cfg then register_all hc neon_cases reg else reg);
               reg = (if SIMSIMD_TARGET_SVE cfg then register_all hc sve_cases reg else reg);
               reg = (if SIMSIMD_TARGET_HASWELL cfg then register_all hc haswell_cases reg
                      else reg);
               reg = (if SIMSIMD_TARGET_SAPPHIRE cfg then register_all hc sapphire_cases reg
                      else reg);
               reg = (if SIMSIMD_TARGET_ICE cfg then register_all hc ice_cases reg else reg);
               reg = (if SIMSIMD_TARGET_SKYLAKE cfg then register_all hc skylake_cases reg
                      else reg);
               reg = register_all hc serial_cases reg
           in (0, \<lparr>stdout = out, registered = reg,
                   engine_calls = [RunSpecifiedBenchmarks reg, Shutdown]\<rparr>))"

section \<open>Notions used in the properties\<close>

text \<open>
  What a run of \<^verbatim>\<open>measure\<close> holds in its locals: the state in which the contender's
  \<open>k\<close>-th call starts, the folding of an output buffer done by both lambdas, the buffer
  a metric leaves when started on zeros, and the values of \<^verbatim>\<open>c_baseline\<close> and of \<^verbatim>\<open>c\<close>
  after the loop.
\<close>

primrec world_after :: "'w metric_at \<Rightarrow> nat \<Rightarrow> vectors_pair_gt \<Rightarrow> nat \<Rightarrow> 'w \<Rightarrow> 'w" where
  "world_after metric dimensions_ak pair 0 w = w"
| "world_after metric dimensions_ak pair (Suc k) w =
     world_after metric dimensions_ak pair k
       (snd (metric w (a pair) (b pair) (dimensions dimensions_ak) (Fin 0, Fin 0)))"

definition folded :: "fp \<times> fp \<Rightarrow> fp" where
  "folded r = fcast binary32 (fadd binary64 (fst r) (snd r))"

definition results_of :: "'w metric_at \<Rightarrow> nat \<Rightarrow> vectors_pair_gt \<Rightarrow> 'w \<Rightarrow> fp \<times> fp" where
  "results_of metric dimensions_ak pair w =
     fst (metric w (a pair) (b pair) (dimensions dimensions_ak) (Fin 0, Fin 0))"

definition c_baseline_of :: "scalar_t \<Rightarrow> nat \<Rightarrow> int \<Rightarrow> (nat \<Rightarrow> int) \<Rightarrow> 'w metric_at \<Rightarrow> 'w exec \<Rightarrow> fp" where
  "c_baseline_of scalar_at dimensions_ak RAND_MAX rnd baseline x =
     fst (call_baseline baseline dimensions_ak (randomize scalar_at dimensions_ak RAND_MAX rnd) x)"

definition c_of :: "scalar_t \<Rightarrow> nat \<Rightarrow> int \<Rightarrow> (nat \<Rightarrow> int) \<Rightarrow> state \<Rightarrow> 'w metric_at \<Rightarrow> 'w metric_at
    \<Rightarrow> 'w exec \<Rightarrow> fp" where
  "c_of scalar_at dimensions_ak RAND_MAX rnd st metric baseline x =
     (let pair = randomize scalar_at dimensions_ak RAND_MAX rnd
      in fst (timed_loop (max_iterations st) metric dimensions_ak pair
                (Fin 0, 0, snd (call_baseline baseline dimensions_ak pair x))))"

declare randomize.simps [simp del]

text \<open>Metric functions and a random source for concrete runs: a metric that writes two
  given values, one that leaves the buffer as it is, one that writes the number of its
  earlier calls; \<^verbatim>\<open>rand()\<close> returning one value for ever.\<close>

definition kernel_const :: "fp \<times> fp \<Rightarrow> 'w metric_at" where
  "kernel_const r w va vb n results = (r, w)"

definition kernel_untouched :: "'w metric_at" where
  "kernel_untouched w va vb n results = (results, w)"

definition kernel_counting :: "nat metric_at" where
  "kernel_counting w va vb n results = ((Fin (of_nat w), snd results), Suc w)"

definition rand_const :: "int \<Rightarrow> nat \<Rightarrow> int" where
  "rand_const v k = v"

text \<open>The accuracy figures in the words of the specification: the absolute difference,
  0 when it is below 0.0001; the delta over the absolute value of the reference when
  neither is 0, else 0.\<close>

definition spec_absolute_delta :: "fp \<Rightarrow> fp \<Rightarrow> fp" where
  "spec_absolute_delta c reference =
     (if flt (fabs (fsub binary64 c reference)) (fround binary64 (1 / 10000)) then Fin 0
      else fabs (fsub binary64 c reference))"

definition spec_relative_error :: "fp \<Rightarrow> fp \<Rightarrow> fp" where
  "spec_relative_error delta reference =
     (if fne delta (Fin 0) \<and> fne reference (Fin 0)
      then fdiv binary64 delta (fabs reference) else Fin 0)"

text \<open>The two accuracy counters of a finished run, and a run's initial state.\<close>

definition abs_delta_of :: "state \<times> 'w exec \<Rightarrow> fp" where
  "abs_delta_of r = cvalue (the (counters (fst r) ''abs_delta''))"

definition relative_error_of :: "state \<times> 'w exec \<Rightarrow> fp" where
  "relative_error_of r = cvalue (the (counters (fst r) ''relative_error''))"

definition run0 :: "nat \<Rightarrow> state" where
  "run0 n = \<lparr>max_iterations = n, counters = Map.empty\<rparr>"

definition exec0 :: "'w \<Rightarrow> 'w exec" where
  "exec0 w = \<lparr>world = w, calls = []\<rparr>"

text \<open>
  Inside \<^verbatim>\<open>randomize\<close>: the value \<^verbatim>\<open>double(rand()) / double(RAND_MAX)\<close> made from
  the \<open>k\<close>-th result of \<^verbatim>\<open>rand()\<close>, and the running sum \<^verbatim>\<open>a2_sum += ai * ai\<close> over a
  list of such values, started at 0.
\<close>

definition draw :: "int \<Rightarrow> (nat \<Rightarrow> int) \<Rightarrow> nat \<Rightarrow> fp" where
  "draw RAND_MAX rnd k = fdiv binary64 (double_of_int (rnd k)) (double_of_int RAND_MAX)"

definition sum_squares :: "fp list \<Rightarrow> fp" where
  "sum_squares us = foldl (\<lambda>s u. fadd binary64 s (fmul binary64 u u)) (Fin 0) us"

text \<open>
  The Euclidean norm of a stored vector, over the reals: \<open>unit_norm\<close> holds of a vector
  whose elements are all finite numbers and whose norm is within \<open>1/1000\<close> of 1.
\<close>

fun is_finite_scalar :: "scalar \<Rightarrow> bool" where
  "is_finite_scalar (SF (Fin x)) = True"
| "is_finite_scalar (SF v) = False"
| "is_finite_scalar (SI k) = True"

fun real_of_scalar :: "scalar \<Rightarrow> real" where
  "real_of_scalar (SF (Fin x)) = x"
| "real_of_scalar (SF v) = 0"
| "real_of_scalar (SI k) = of_int k"

definition l2_norm :: "scalar list \<Rightarrow> real" where
  "l2_norm v = sqrt (sum_list (map (\<lambda>x. (real_of_scalar x)\<^sup>2) v))"

definition unit_norm :: "scalar list \<Rightarrow> bool" where
  "unit_norm v \<longleftrightarrow> list_all is_finite_scalar v \<and> \<bar>l2_norm v - 1\<bar> \<le> 1 / 1000"

text \<open>
  For the rounding analysis: \<open>bracket l h y x\<close> says that \<open>y\<close> lies between \<open>l * x\<close> and
  \<open>h * x\<close>; \<open>eps64\<close> bounds the relative error of one rounding to a double in its normal
  range, \<open>kap\<close> that of one rounding to a format of at least 24 bits of precision.
\<close>

definition bracket :: "real \<Rightarrow> real \<Rightarrow> real \<Rightarrow> real \<Rightarrow> bool" where
  "bracket l h y x \<longleftrightarrow> l * x \<le> y \<and> y \<le> h * x"

definition eps64 :: real where "eps64 = pow2 (- 53)"

definition kap :: real where "kap = pow2 (- 24)"


text \<open>
  For concrete runs of \<^verbatim>\<open>main\<close>: an engine that consumes the arguments starting with
  \<^verbatim>\<open>--benchmark_\<close> and reports any argument left after the program name, on a machine
  with \<open>n\<close> hardware threads; and a build with no accelerated target.
\<close>

definition gbench :: "nat \<Rightarrow> engine" where
  "gbench n =
     \<lparr>Initialize = filter (\<lambda>s. take 12 s \<noteq> ''--benchmark_''),
      ReportUnrecognizedArguments = (\<lambda>argv. 1 < length argv),
      hardware_concurrency = n\<rparr>"

definition no_targets :: build_flags where
  "no_targets =
     \<lparr>SIMSIMD_TARGET_NEON = False, SIMSIMD_TARGET_SVE = False, SIMSIMD_TARGET_HASWELL = False,
      SIMSIMD_TARGET_SKYLAKE = False, SIMSIMD_TARGET_ICE = False,
      SIMSIMD_TARGET_SAPPHIRE = False, SIMSIMD_NATIVE_F16 = False\<rparr>"

section \<open>Rounding lemmas\<close>

lemma pow2_pos [simp]: "0 < pow2 e" by (simp add: pow2_def)
lemma pow2_abs [simp]: "\<bar>pow2 e\<bar> = pow2 e" by (simp add: abs_of_pos)
lemma pow2_ne0 [simp]: "pow2 e \<noteq> 0" using pow2_pos [of e] by linarith
lemma pow2_nonneg [simp]: "0 \<le> pow2 e" by (simp add: pow2_def)
lemma pow2_add: "pow2 (i + j) = pow2 i * pow2 j" by (simp add: pow2_def power_int_add)
lemma pow2_mono: "i \<le> j \<Longrightarrow> pow2 i \<le> pow2 j" by (simp add: pow2_def power_int_increasing)
lemma pow2_less_cancel: "pow2 i < pow2 j \<Longrightarrow> i < j"
  using pow2_mono [of j i] by (cases "i < j") auto
lemma pow2_nonneg_int: "0 \<le> j \<Longrightarrow> pow2 j = of_int (2 ^ nat j)"
  by (simp add: pow2_def power_int_nonneg_exp)

lemma pow2_succ: "pow2 (i + 1) = 2 * pow2 i"
  by (simp add: pow2_def power_int_add)

lemma pow2_0 [simp]: "pow2 0 = 1" by (simp add: pow2_def)

lemma ilog2_bounds: "0 < x \<Longrightarrow> pow2 (ilog2 x) \<le> x \<and> x < pow2 (ilog2 x + 1)"
proof (induction x rule: ilog2.induct)
  case (1 x)
  show ?case
  proof (cases "2 \<le> x")
    case True
    with 1 have ih: "pow2 (ilog2 (x / 2)) \<le> x / 2 \<and> x / 2 < pow2 (ilog2 (x / 2) + 1)" by simp
    have e: "ilog2 x = ilog2 (x / 2) + 1" using True by (subst ilog2.simps) simp
    show ?thesis using ih unfolding e pow2_succ by simp
  next
    case False
    show ?thesis
    proof (cases "x < 1")
      case True
      with 1 False have ih: "pow2 (ilog2 (x * 2)) \<le> x * 2 \<and> x * 2 < pow2 (ilog2 (x * 2) + 1)" by simp
      have e: "ilog2 (x * 2) = ilog2 x + 1" using True False 1(3) by (subst (2) ilog2.simps) simp
      show ?thesis using ih unfolding e pow2_succ by simp
    next
      case False
      with \<open>\<not> 2 \<le> x\<close> have "ilog2 x = 0" using 1(3) by (subst ilog2.simps) simp
      then show ?thesis using False \<open>\<not> 2 \<le> x\<close> pow2_succ [of 0] by simp
    qed
  qed
qed

lemma ilog2_less: "0 < x \<Longrightarrow> x < pow2 k \<Longrightarrow> ilog2 x < k"
  using ilog2_bounds [of x] pow2_less_cancel [of "ilog2 x" k] by linarith

lemma rne_of_int [simp]: "rne (of_int k) = k" by (simp add: rne_def)
lemma rne_le: "q \<le> of_int N \<Longrightarrow> rne q \<le> N"
  unfolding rne_def Let_def by (auto; linarith)
lemma rne_ge: "of_int N \<le> q \<Longrightarrow> N \<le> rne q"
  unfolding rne_def Let_def by (auto; linarith)


lemma fround_abs_le:
  assumes x: "x \<noteq> 0" and le: "\<bar>x\<bar> \<le> of_int m * pow2 j"
    and j: "max (ilog2 \<bar>x\<bar>) (1 - emax fmt) - int (prec fmt) + 1 \<le> j"
    and ov: "of_int m * pow2 j < pow2 (emax fmt + 1)"
  shows "\<exists>y. fround fmt x = Fin y \<and> \<bar>y\<bar> \<le> of_int m * pow2 j \<and> (0 \<le> x \<longrightarrow> 0 \<le> y)"
proof -
  define e where "e = max (ilog2 \<bar>x\<bar>) (1 - emax fmt) - int (prec fmt) + 1"
  define M where "M = m * 2 ^ nat (j - e)"
  have ej: "e \<le> j" using j by (simp add: e_def)
  have "pow2 j = pow2 (j - e) * pow2 e" using pow2_add [of "j - e" e] by simp
  also have "pow2 (j - e) = of_int (2 ^ nat (j - e))" using ej by (simp add: pow2_nonneg_int)
  finally have H: "of_int m * pow2 j = of_int M * pow2 e" by (simp add: M_def)
  have "\<bar>x / pow2 e\<bar> = \<bar>x\<bar> / pow2 e" by (simp add: abs_of_pos)
  also have "\<dots> \<le> of_int M" using le H by (simp add: pos_divide_le_eq)
  finally have "\<bar>x / pow2 e\<bar> \<le> of_int M" .
  then have "- of_int M \<le> x / pow2 e" "x / pow2 e \<le> of_int M" by linarith+
  then have r: "- M \<le> rne (x / pow2 e)" "rne (x / pow2 e) \<le> M"
    using rne_ge [of "- M" "x / pow2 e"] rne_le [of "x / pow2 e" M] by simp_all
  define y where "y = of_int (rne (x / pow2 e)) * pow2 e"
  have "\<bar>rne (x / pow2 e)\<bar> \<le> M" using r by linarith
  then have "\<bar>of_int (rne (x / pow2 e)) :: real\<bar> \<le> of_int M"
    by (metis of_int_abs of_int_le_iff)
  then have yb: "\<bar>y\<bar> \<le> of_int M * pow2 e"
    by (simp add: y_def abs_mult mult_right_mono)
  have ys: "0 \<le> x \<longrightarrow> 0 \<le> y"
  proof
    assume "0 \<le> x"
    then have "of_int 0 \<le> x / pow2 e" using pow2_pos [of e] by (simp add: less_imp_le)
    then have "0 \<le> rne (x / pow2 e)" by (rule rne_ge)
    then show "0 \<le> y" unfolding y_def by (intro mult_nonneg_nonneg) simp_all
  qed
  have "fround fmt x = Fin y"
    using x yb ov H by (simp add: fround_def Let_def e_def [symmetric] y_def [symmetric])
  then show ?thesis using yb ys H by simp
qed

lemma fround_grid_exact:
  assumes x: "x = of_int m * pow2 j"
    and j: "max (ilog2 \<bar>x\<bar>) (1 - emax fmt) - int (prec fmt) + 1 \<le> j"
    and ov: "\<bar>x\<bar> < pow2 (emax fmt + 1)"
  shows "fround fmt x = Fin x"
proof (cases "x = 0")
  case True
  then show ?thesis by (simp add: fround_def)
next
  case False
  define e where "e = max (ilog2 \<bar>x\<bar>) (1 - emax fmt) - int (prec fmt) + 1"
  define M where "M = m * 2 ^ nat (j - e)"
  have ej: "e \<le> j" using j by (simp add: e_def)
  have "pow2 j = pow2 (j - e) * pow2 e" using pow2_add [of "j - e" e] by simp
  also have "pow2 (j - e) = of_int (2 ^ nat (j - e))" using ej by (simp add: pow2_nonneg_int)
  finally have H: "x = of_int M * pow2 e" by (simp add: M_def x)
  then have "x / pow2 e = of_int M" by simp
  then have "of_int (rne (x / pow2 e)) * pow2 e = x" using H by simp
  then show ?thesis
    using False ov by (simp add: fround_def Let_def e_def [symmetric])
qed

lemma fround64_unit:
  assumes "0 \<le> q" "q \<le> 1"
  shows "\<exists>y. fround binary64 q = Fin y \<and> 0 \<le> y \<and> y \<le> 1"
proof (cases "q = 0")
  case True
  then show ?thesis by (simp add: fround_def)
next
  case False
  with assms have q: "0 < q" by simp
  have "q < pow2 1" using assms by (simp add: pow2_def)
  then have "ilog2 q < 1" using q by (rule ilog2_less [rotated])
  then have "max (ilog2 \<bar>q\<bar>) (1 - emax binary64) - int (prec binary64) + 1 \<le> 0"
    using q by (simp add: binary64_def)
  moreover have "\<bar>q\<bar> \<le> of_int 1 * pow2 0" using assms by simp
  moreover have "of_int 1 * pow2 0 < pow2 (emax binary64 + 1)"
    by (simp add: binary64_def pow2_def)
  ultimately obtain y where "fround binary64 q = Fin y" "\<bar>y\<bar> \<le> of_int 1 * pow2 0" "0 \<le> q \<longrightarrow> 0 \<le> y"
    using fround_abs_le [of q 1 0 binary64] False by blast
  then show ?thesis using assms by auto
qed

lemma fround64_nat_exact:
  assumes "n < 2 ^ 53"
  shows "fround binary64 (of_nat n) = Fin (of_nat n)"
proof (cases "n = 0")
  case True
  then show ?thesis by (simp add: fround_def)
next
  case False
  have "real n < 2 ^ 53" using assms by (metis of_nat_less_iff of_nat_numeral of_nat_power)
  then have lt: "real n < pow2 53" by (simp add: pow2_def)
  then have "ilog2 (real n) < 53" using False by (intro ilog2_less) simp_all
  then have a: "max (ilog2 \<bar>real n\<bar>) (1 - emax binary64) - int (prec binary64) + 1 \<le> 0"
    by (simp add: binary64_def)
  have b: "real n = of_int (int n) * pow2 0" by simp
  have "pow2 53 \<le> pow2 (emax binary64 + 1)" by (rule pow2_mono) (simp add: binary64_def)
  with lt have c: "\<bar>real n\<bar> < pow2 (emax binary64 + 1)" by simp
  show ?thesis by (rule fround_grid_exact [OF b a c])
qed

lemma tol_value: "fround binary64 (1 / 10000) = Fin (7378697629483821 / 2 ^ 66)"
  by (simp add: fround_def ilog2.simps binary64_def pow2_def rne_def Let_def)

lemma fround64_below_tol:
  assumes "\<bar>z\<bar> < 1 / 10000"
  shows "\<exists>y. fround binary64 z = Fin y \<and> \<bar>y\<bar> \<le> 7378697629483821 / 2 ^ 66"
proof (cases "z = 0")
  case True
  then show ?thesis by (simp add: fround_def)
next
  case False
  have "\<bar>z\<bar> < pow2 (- 13)" using assms by (simp add: pow2_def)
  then have "ilog2 \<bar>z\<bar> < - 13" using False by (intro ilog2_less) simp_all
  then have "max (ilog2 \<bar>z\<bar>) (1 - emax binary64) - int (prec binary64) + 1 \<le> - 66"
    by (simp add: binary64_def)
  moreover have "\<bar>z\<bar> \<le> of_int 7378697629483821 * pow2 (- 66)"
    using assms by (simp add: pow2_def)
  moreover have "of_int 7378697629483821 * pow2 (- 66) < pow2 (emax binary64 + 1)"
    by (simp add: binary64_def pow2_def)
  ultimately obtain y where "fround binary64 z = Fin y" "\<bar>y\<bar> \<le> of_int 7378697629483821 * pow2 (- 66)"
    using fround_abs_le [of z 7378697629483821 "- 66" binary64] False by blast
  then show ?thesis by (simp add: pow2_def)
qed

lemma fround_zero [simp]: "fround fmt 0 = Fin 0"
  by (simp add: fround_def)

lemma f32_vals:
  "fround binary32 1 = Fin 1" "fround binary32 (- 1) = Fin (- 1)"
  "fround binary64 1 = Fin 1" "fround binary64 (- 1) = Fin (- 1)"
  "fround binary32 16777217 = Fin 16777216" "fround binary32 16777216 = Fin 16777216"
  "fround binary64 16777217 = Fin 16777217" "fround binary64 16777216 = Fin 16777216"
  "fround binary64 (1 / 2) = Fin (1 / 2)" "fround binary32 (1 / 2) = Fin (1 / 2)"
  "fround binary64 (16385 / 32768) = Fin (16385 / 32768)"
  "fround binary32 (16385 / 32768) = Fin (16385 / 32768)"
  "fround binary64 (1 / 32768) = Fin (1 / 32768)"
  "fround binary64 2 = Fin 2" "fround binary32 2 = Fin 2"
  "fround binary64 (- 2) = Fin (- 2)" "fround binary32 (- 2) = Fin (- 2)"
  by (simp_all add: fround_def ilog2.simps binary64_def binary32_def pow2_def rne_def Let_def)

text \<open>
  A value that was rounded into a format is a value of the format: rounding it again
  changes nothing.
\<close>

lemma fround_idem:
  assumes p: "0 < prec fmt" and r: "fround fmt x = Fin y"
  shows "fround fmt y = Fin y"
proof (cases "x = 0")
  case True
  with r show ?thesis by (simp add: fround_def)
next
  case False
  define e where "e = max (ilog2 \<bar>x\<bar>) (1 - emax fmt)"
  define j where "j = e - int (prec fmt) + 1"
  define k where "k = rne (x / pow2 j)"
  have y: "y = of_int k * pow2 j" and ov: "\<bar>y\<bar> < pow2 (emax fmt + 1)"
    using r False
    by (auto simp: fround_def Let_def e_def [symmetric] j_def [symmetric] k_def [symmetric]
        split: if_splits)
  have P: "pow2 (e + 1) = of_int (2 ^ prec fmt) * pow2 j"
  proof -
    have "e + 1 = int (prec fmt) + j" by (simp add: j_def)
    then have "pow2 (e + 1) = pow2 (int (prec fmt)) * pow2 j" by (simp add: pow2_add)
    then show ?thesis by (simp add: pow2_nonneg_int)
  qed
  have "\<bar>x\<bar> < pow2 (ilog2 \<bar>x\<bar> + 1)" using ilog2_bounds [of "\<bar>x\<bar>"] False by simp
  also have "\<dots> \<le> pow2 (e + 1)" by (rule pow2_mono) (simp add: e_def)
  finally have "\<bar>x\<bar> / pow2 j < of_int (2 ^ prec fmt)"
    unfolding P by (simp add: pos_divide_less_eq)
  then have "\<bar>x / pow2 j\<bar> \<le> of_int (2 ^ prec fmt)" by (simp add: abs_of_pos)
  then have "- of_int (2 ^ prec fmt) \<le> x / pow2 j" "x / pow2 j \<le> of_int (2 ^ prec fmt)"
    by linarith+
  then have kb: "- (2 ^ prec fmt) \<le> k" "k \<le> 2 ^ prec fmt"
    using rne_ge [of "- (2 ^ prec fmt)" "x / pow2 j"] rne_le [of "x / pow2 j" "2 ^ prec fmt"]
    by (simp_all add: k_def)
  show ?thesis
  proof (cases "\<bar>k\<bar> = 2 ^ prec fmt")
    case False
    then have "\<bar>k\<bar> < 2 ^ prec fmt" using kb by linarith
    then have "\<bar>of_int k :: real\<bar> < of_int (2 ^ prec fmt)"
      by (metis of_int_abs of_int_less_iff)
    then have "\<bar>y\<bar> < pow2 (e + 1)"
      unfolding P y by (simp add: abs_mult)
    then have "y = 0 \<or> ilog2 \<bar>y\<bar> < e + 1"
      using ilog2_less [of "\<bar>y\<bar>" "e + 1"] by auto
    then show ?thesis
    proof
      assume "y = 0"
      then show ?thesis by (simp add: fround_def)
    next
      assume "ilog2 \<bar>y\<bar> < e + 1"
      then have "max (ilog2 \<bar>y\<bar>) (1 - emax fmt) - int (prec fmt) + 1 \<le> j"
        by (simp add: j_def e_def)
      then show ?thesis using y ov by (intro fround_grid_exact)
    qed
  next
    case True
    obtain q where q: "prec fmt = Suc q" using p by (cases "prec fmt") auto
    define m where "m = (if 0 \<le> k then 2 ^ q else - (2 ^ q) :: int)"
    have km: "k = m * 2" using True by (auto simp: m_def q abs_if split: if_splits)
    have y2: "y = of_int m * pow2 (j + 1)" unfolding y km by (simp add: pow2_succ)
    have "\<bar>y\<bar> = pow2 (e + 1)" unfolding P y using True
      by (simp add: abs_mult) (metis of_int_abs of_int_numeral of_int_power)
    also have "\<dots> < pow2 (e + 2)"
    proof -
      have "pow2 (e + 1 + 1) = 2 * pow2 (e + 1)" by (rule pow2_succ)
      moreover have "e + 1 + 1 = e + 2" by simp
      ultimately have "pow2 (e + 2) = 2 * pow2 (e + 1)" by (simp only:)
      then show ?thesis using pow2_pos [of "e + 1"] by linarith
    qed
    finally have "ilog2 \<bar>y\<bar> < e + 2" using ilog2_less [of "\<bar>y\<bar>" "e + 2"] \<open>\<bar>y\<bar> = pow2 (e + 1)\<close>
      by simp
    then have "max (ilog2 \<bar>y\<bar>) (1 - emax fmt) - int (prec fmt) + 1 \<le> j + 1"
      by (simp add: j_def e_def)
    then show ?thesis using y2 ov by (intro fround_grid_exact)
  qed
qed

lemma fcast_idem: "0 < prec fmt \<Longrightarrow> fcast fmt (fcast fmt v) = fcast fmt v"
proof (cases v)
  case (Fin x)
  assume "0 < prec fmt"
  then show ?thesis using Fin fround_idem [of fmt x]
    by (cases "fround fmt x") simp_all
qed simp_all

lemma double_of_int_exact:
  assumes "0 \<le> k" "k < 2 ^ 53"
  shows "double_of_int k = Fin (of_int k)"
proof -
  have "nat k < 2 ^ 53" using assms by (simp add: nat_less_iff)
  then have "fround binary64 (of_nat (nat k)) = Fin (of_nat (nat k))"
    by (rule fround64_nat_exact)
  then show ?thesis using assms by (simp add: double_of_int_def)
qed

lemma unat_product:
  assumes "n * unat (s :: 64 word) * 2 < 2 ^ 53"
  shows "unat (of_nat n * s * 2) = n * unat s * 2"
proof -
  have "(of_nat n * s * 2 :: 64 word) = of_nat (n * unat s * 2)" by simp
  moreover have "n * unat s * 2 < 2 ^ LENGTH(64)" using assms by simp
  ultimately show ?thesis by (simp only: unat_of_nat mod_less)
qed

section \<open>The loops of the input generator\<close>

lemma foldl_upt_Suc: "foldl f s [0..<Suc n] = f (foldl f s [0..<n]) n"
  by simp

lemma update_tail:
  "length xs = n \<Longrightarrow> n < d \<Longrightarrow>
     (xs @ replicate (d - n) z)[n := v] = (xs @ [v]) @ replicate (d - Suc n) z"
proof -
  assume l: "length xs = n" and n: "n < d"
  then have "replicate (d - n) z = z # replicate (d - Suc n) z"
    by (metis Suc_diff_Suc replicate_Suc)
  then show ?thesis using l by (simp add: list_update_append)
qed

lemma fill_floating_loop:
  "n \<le> d \<Longrightarrow>
   foldl (fill_floating fmt RM rnd) (0, replicate d z, replicate d z, Fin 0, Fin 0) [0..<n] =
     (2 * n,
      map (\<lambda>i. SF (fcast fmt (draw RM rnd (2 * i)))) [0..<n] @ replicate (d - n) z,
      map (\<lambda>i. SF (fcast fmt (draw RM rnd (2 * i + 1)))) [0..<n] @ replicate (d - n) z,
      sum_squares (map (\<lambda>i. draw RM rnd (2 * i)) [0..<n]),
      sum_squares (map (\<lambda>i. draw RM rnd (2 * i + 1)) [0..<n]))"
proof (induction n)
  case 0
  show ?case by (simp add: sum_squares_def)
next
  case (Suc n)
  from Suc have n: "n < d" and ih: "foldl (fill_floating fmt RM rnd)
      (0, replicate d z, replicate d z, Fin 0, Fin 0) [0..<n] =
     (2 * n,
      map (\<lambda>i. SF (fcast fmt (draw RM rnd (2 * i)))) [0..<n] @ replicate (d - n) z,
      map (\<lambda>i. SF (fcast fmt (draw RM rnd (2 * i + 1)))) [0..<n] @ replicate (d - n) z,
      sum_squares (map (\<lambda>i. draw RM rnd (2 * i)) [0..<n]),
      sum_squares (map (\<lambda>i. draw RM rnd (2 * i + 1)) [0..<n]))"
    by simp_all
  show ?case
    unfolding foldl_upt_Suc ih using n
    by (simp add: fill_floating_def Let_def update_tail sum_squares_def draw_def)
qed

lemma fill_integral_loop:
  "n \<le> d \<Longrightarrow>
   foldl (fill_integral w sg rnd) (0, replicate d z, replicate d z, Fin 0, Fin 0) [0..<n] =
     (2 * n,
      map (\<lambda>i. SI (wrap_int w sg (rnd (2 * i)))) [0..<n] @ replicate (d - n) z,
      map (\<lambda>i. SI (wrap_int w sg (rnd (2 * i + 1)))) [0..<n] @ replicate (d - n) z,
      Fin 0, Fin 0)"
proof (induction n)
  case 0
  show ?case by simp
next
  case (Suc n)
  from Suc have n: "n < d" and ih: "foldl (fill_integral w sg rnd)
      (0, replicate d z, replicate d z, Fin 0, Fin 0) [0..<n] =
     (2 * n,
      map (\<lambda>i. SI (wrap_int w sg (rnd (2 * i)))) [0..<n] @ replicate (d - n) z,
      map (\<lambda>i. SI (wrap_int w sg (rnd (2 * i + 1)))) [0..<n] @ replicate (d - n) z,
      Fin 0, Fin 0)"
    by simp_all
  show ?case
    unfolding foldl_upt_Suc ih using n
    by (simp add: fill_integral_def Let_def update_tail)
qed

lemma update_drop:
  "length xs = n \<Longrightarrow> n < length va \<Longrightarrow>
     (xs @ drop n va)[n := v] = (xs @ [v]) @ drop (Suc n) va"
  by (simp add: list_update_append Cons_nth_drop_Suc [symmetric])

lemma nth_drop_at: "length xs = n \<Longrightarrow> n < length va \<Longrightarrow> (xs @ drop n va) ! n = va ! n"
  by (simp add: nth_append)

lemma normalize_loop:
  "n \<le> length va \<Longrightarrow> length vb = length va \<Longrightarrow>
   foldl (normalize_step fmt sa sb) (va, vb) [0..<n] =
     (map (\<lambda>i. SF (fcast fmt (fdiv binary64 (to_double (va ! i)) sa))) [0..<n] @ drop n va,
      map (\<lambda>i. SF (fcast fmt (fdiv binary64 (to_double (vb ! i)) sb))) [0..<n] @ drop n vb)"
proof (induction n)
  case 0
  show ?case by simp
next
  case (Suc n)
  from Suc have n: "n < length va" "n < length vb" and ih: "foldl (normalize_step fmt sa sb) (va, vb) [0..<n] =
     (map (\<lambda>i. SF (fcast fmt (fdiv binary64 (to_double (va ! i)) sa))) [0..<n] @ drop n va,
      map (\<lambda>i. SF (fcast fmt (fdiv binary64 (to_double (vb ! i)) sb))) [0..<n] @ drop n vb)"
    by simp_all
  show ?case
    unfolding foldl_upt_Suc ih using n
    by (simp add: normalize_step_def Let_def update_drop nth_drop_at)
qed

lemma randomize_integral:
  "randomize (IntT w sg) d RM rnd =
     \<lparr>a = map (\<lambda>i. SI (wrap_int w sg (rnd (2 * i)))) [0..<d],
      b = map (\<lambda>i. SI (wrap_int w sg (rnd (2 * i + 1)))) [0..<d]\<rparr>"
  by (simp add: randomize.simps Let_def fill_integral_loop)

lemma randomize_floating:
  "randomize (FloatT fmt) d RM rnd =
     \<lparr>a = map (\<lambda>i. SF (fcast fmt (fdiv binary64 (fcast fmt (draw RM rnd (2 * i)))
                (fsqrt binary64 (sum_squares (map (\<lambda>i. draw RM rnd (2 * i)) [0..<d]))))))
            [0..<d],
      b = map (\<lambda>i. SF (fcast fmt (fdiv binary64 (fcast fmt (draw RM rnd (2 * i + 1)))
                (fsqrt binary64 (sum_squares (map (\<lambda>i. draw RM rnd (2 * i + 1)) [0..<d]))))))
            [0..<d]\<rparr>"
  by (simp add: randomize.simps Let_def fill_floating_loop normalize_loop)

lemma draw_unit:
  assumes "0 < RM" "RM < 2 ^ 53" "0 \<le> rnd k" "rnd k \<le> RM"
  shows "\<exists>u. draw RM rnd k = Fin u \<and> 0 \<le> u \<and> u \<le> 1"
proof -
  have r: "double_of_int (rnd k) = Fin (of_int (rnd k))"
    using assms by (intro double_of_int_exact) simp_all
  have m: "double_of_int RM = Fin (of_int RM)"
    using assms by (intro double_of_int_exact) simp_all
  have "0 \<le> (of_int (rnd k) :: real) / of_int RM" "(of_int (rnd k) :: real) / of_int RM \<le> 1"
    using assms by simp_all
  then show ?thesis
    using fround64_unit [of "of_int (rnd k) / of_int RM"] assms(1)
    by (simp add: draw_def r m)
qed

lemma draw_max: "draw 2147483647 (rand_const 2147483647) k = Fin 1"
  by (simp add: draw_def rand_const_def double_of_int_def fround_def ilog2.simps binary64_def
      pow2_def rne_def Let_def)

lemma draw_max': "draw 32767 (rand_const 32767) k = Fin 1"
  by (simp add: draw_def rand_const_def double_of_int_def fround_def ilog2.simps binary64_def
      pow2_def rne_def Let_def)

section \<open>Rounding errors of the normalization\<close>

text \<open>
  One rounding to nearest moves a value of the normal range by a relative error of at most
  \<open>2\<^sup>-\<^sup>p\<close>, \<open>p\<close> the precision of the format.
\<close>

lemma rne_err: "\<bar>of_int (rne q) - q\<bar> \<le> 1 / 2"
  unfolding rne_def Let_def by (auto; linarith)

lemma pow2_le_cancel: "pow2 i \<le> pow2 j \<Longrightarrow> i \<le> j"
proof (rule ccontr)
  assume a: "pow2 i \<le> pow2 j" and "\<not> i \<le> j"
  then have "j + 1 \<le> i" by simp
  then have "pow2 (j + 1) \<le> pow2 i" by (rule pow2_mono)
  then have "2 * pow2 j \<le> pow2 i" by (simp only: pow2_succ)
  then show False using a pow2_pos [of j] by linarith
qed

lemma fround_within:
  assumes p: "0 < prec fmt" and lo: "x = 0 \<or> pow2 (1 - emax fmt) \<le> x"
    and hi: "x \<le> pow2 k" and k: "k \<le> emax fmt"
  shows "\<exists>y. fround fmt x = Fin y \<and> 0 \<le> y \<and> y \<le> pow2 k
           \<and> (1 - pow2 (- int (prec fmt))) * x \<le> y \<and> y \<le> (1 + pow2 (- int (prec fmt))) * x"
proof (cases "x = 0")
  case True
  then show ?thesis by (simp add: fround_def)
next
  case False
  with lo have lo': "pow2 (1 - emax fmt) \<le> x" by simp
  then have x: "0 < x" using pow2_pos [of "1 - emax fmt"] by linarith
  define e where "e = ilog2 x"
  have eb: "pow2 e \<le> x" "x < pow2 (e + 1)" using ilog2_bounds [OF x] by (simp_all add: e_def)
  have "pow2 (1 - emax fmt) < pow2 (e + 1)" using lo' eb by linarith
  then have emin: "1 - emax fmt \<le> e" using pow2_less_cancel [of "1 - emax fmt" "e + 1"] by simp
  have "pow2 e \<le> pow2 k" using eb hi by linarith
  then have ek: "e \<le> k" by (rule pow2_le_cancel)
  define j where "j = e - int (prec fmt) + 1"
  have me: "max (ilog2 \<bar>x\<bar>) (1 - emax fmt) = e" using x emin by (simp add: e_def)
  have jk: "max (ilog2 \<bar>x\<bar>) (1 - emax fmt) - int (prec fmt) + 1 \<le> k"
    unfolding me using ek p by simp
  have ov: "of_int 1 * pow2 k < pow2 (emax fmt + 1)"
  proof -
    have "pow2 (k + 1) \<le> pow2 (emax fmt + 1)" using k by (intro pow2_mono) simp
    then have "2 * pow2 k \<le> pow2 (emax fmt + 1)" by (simp only: pow2_succ)
    then have "pow2 k < pow2 (emax fmt + 1)" using pow2_pos [of k] by linarith
    then show ?thesis by simp
  qed
  obtain y where y: "fround fmt x = Fin y" "\<bar>y\<bar> \<le> of_int 1 * pow2 k" "0 \<le> x \<longrightarrow> 0 \<le> y"
    using fround_abs_le [of x 1 k fmt] False hi x jk ov by auto
  have yv: "y = of_int (rne (x / pow2 j)) * pow2 j"
    using y(1) False by (simp add: fround_def Let_def me j_def split: if_splits)
  have "\<bar>y - x\<bar> = \<bar>of_int (rne (x / pow2 j)) - x / pow2 j\<bar> * pow2 j"
  proof -
    have "y - x = (of_int (rne (x / pow2 j)) - x / pow2 j) * pow2 j"
      by (simp add: yv left_diff_distrib)
    then show ?thesis by (simp add: abs_mult)
  qed
  also have "\<dots> \<le> 1 / 2 * pow2 j"
    by (intro mult_right_mono rne_err) simp
  also have "\<dots> = pow2 (- int (prec fmt)) * pow2 e"
  proof -
    have "j = (- int (prec fmt) + e) + 1" by (simp add: j_def)
    then have "pow2 j = 2 * pow2 (- int (prec fmt) + e)" by (simp only: pow2_succ)
    also have "\<dots> = 2 * (pow2 (- int (prec fmt)) * pow2 e)" by (simp only: pow2_add)
    finally show ?thesis by simp
  qed
  also have "\<dots> \<le> pow2 (- int (prec fmt)) * x"
    by (intro mult_left_mono eb) simp
  finally have "\<bar>y - x\<bar> \<le> pow2 (- int (prec fmt)) * x" .
  then have "(1 - pow2 (- int (prec fmt))) * x \<le> y" "y \<le> (1 + pow2 (- int (prec fmt))) * x"
    by (simp_all add: algebra_simps abs_le_iff)
  then show ?thesis using y x by auto
qed

text \<open>Brackets compose along a computation; powers of \<open>1 \<plusminus> x\<close> by Bernoulli.\<close>

lemma bracket_trans:
  "bracket l1 h1 y x \<Longrightarrow> bracket l2 h2 z y \<Longrightarrow> 0 \<le> l2 \<Longrightarrow> 0 \<le> h2
     \<Longrightarrow> bracket (l2 * l1) (h2 * h1) z x"
proof -
  assume a: "bracket l1 h1 y x" "bracket l2 h2 z y" "0 \<le> l2" "0 \<le> h2"
  have "l2 * (l1 * x) \<le> l2 * y" using a by (intro mult_left_mono) (simp_all add: bracket_def)
  moreover have "h2 * y \<le> h2 * (h1 * x)" using a by (intro mult_left_mono) (simp_all add: bracket_def)
  ultimately show ?thesis using a(2) by (simp add: bracket_def mult.assoc)
qed

lemma bracket_weaken:
  "bracket l h y x \<Longrightarrow> l' \<le> l \<Longrightarrow> h \<le> h' \<Longrightarrow> 0 \<le> x \<Longrightarrow> bracket l' h' y x"
proof -
  assume a: "bracket l h y x" "l' \<le> l" "h \<le> h'" "0 \<le> x"
  have "l' * x \<le> l * x" "h * x \<le> h' * x" using a by (simp_all add: mult_right_mono)
  then show ?thesis using a(1) by (simp add: bracket_def)
qed

lemma bracket_sq:
  "bracket l h y x \<Longrightarrow> 0 \<le> l \<Longrightarrow> 0 \<le> x \<Longrightarrow> bracket (l\<^sup>2) (h\<^sup>2) (y\<^sup>2) (x\<^sup>2)"
proof -
  assume a: "bracket l h y x" "0 \<le> l" "0 \<le> x"
  have lx: "0 \<le> l * x" using a by simp
  have "l * x \<le> y" using a by (simp add: bracket_def)
  with lx have y: "0 \<le> y" by linarith
  have "(l * x)\<^sup>2 \<le> y\<^sup>2" using lx a by (intro power_mono) (simp_all add: bracket_def)
  moreover have "y\<^sup>2 \<le> (h * x)\<^sup>2" using y a by (intro power_mono) (simp_all add: bracket_def)
  ultimately show ?thesis by (simp add: bracket_def power_mult_distrib)
qed

lemma bracket_sum:
  "(\<And>i. i \<in> A \<Longrightarrow> bracket l h (f i) (g i)) \<Longrightarrow> bracket l h (sum f A) (sum g A)"
  unfolding bracket_def by (simp add: sum_distrib_left sum_mono)

lemma bracket_add:
  "bracket l h y x \<Longrightarrow> bracket l h y' x' \<Longrightarrow> bracket l h (y + y') (x + x')"
  unfolding bracket_def by (simp add: distrib_left add_mono)

lemma bracket_div:
  assumes "bracket l1 h1 y x" "bracket l2 h2 s t" "0 < l2" "0 < t" "0 \<le> x" "0 \<le> l1"
  shows "bracket (l1 / h2) (h1 / l2) (y / s) (x / t)"
proof -
  have lt: "0 < l2 * t" using assms by simp
  have s': "l2 * t \<le> s" "s \<le> h2 * t" using assms by (simp_all add: bracket_def)
  with lt have s: "0 < s" "l2 * t \<le> s" "s \<le> h2 * t" by linarith+
  then have h2: "0 < h2 * t" by linarith
  then have h2': "0 < h2" using assms(4) by (simp add: zero_less_mult_iff)
  have y: "0 \<le> l1 * x" "l1 * x \<le> y" "y \<le> h1 * x" using assms by (simp_all add: bracket_def)
  have "y / s \<le> (h1 * x) / (l2 * t)"
    using y s lt by (intro frac_le) simp_all
  moreover have "(l1 * x) / (h2 * t) \<le> y / s"
    using y s by (intro frac_le) simp_all
  ultimately show ?thesis by (simp add: bracket_def)
qed

lemma pow_eps_upper:
  fixes x :: real
  assumes "0 \<le> x" "real n * x \<le> 1 / 2"
  shows "(1 + x) ^ n \<le> 1 + 2 * real n * x"
proof -
  have a: "(1 + x) ^ m * (1 - real m * x) \<le> 1" if "real m * x \<le> 1 / 2" for m
    using that
  proof (induction m)
    case 0
    show ?case by simp
  next
    case (Suc m)
    have mx: "real m * x \<le> 1 / 2" using Suc.prems assms(1) by (simp add: algebra_simps)
    have "(1 + x) * (1 - real (Suc m) * x) \<le> 1 - real m * x"
    proof -
      have "(1 + x) * (1 - real (Suc m) * x) = 1 - real m * x - real (Suc m) * x\<^sup>2"
        by (simp add: algebra_simps power2_eq_square)
      then show ?thesis by simp
    qed
    then have "(1 + x) ^ m * ((1 + x) * (1 - real (Suc m) * x)) \<le> (1 + x) ^ m * (1 - real m * x)"
      using assms(1) by (intro mult_left_mono) simp_all
    also have "\<dots> \<le> 1" using Suc.IH mx by simp
    finally have "(1 + x) ^ m * ((1 + x) * (1 - real (Suc m) * x)) \<le> 1" .
    moreover have "(1 + x) ^ Suc m * (1 - real (Suc m) * x) =
        (1 + x) ^ m * ((1 + x) * (1 - real (Suc m) * x))"
      by (simp only: power_Suc ac_simps)
    ultimately show ?case by (simp only:)
  qed
  have p: "0 < 1 - real n * x" using assms by linarith
  have "(1 + x) ^ n \<le> 1 / (1 - real n * x)"
    using a [OF assms(2)] p by (simp add: pos_le_divide_eq)
  also have "\<dots> \<le> 1 + 2 * real n * x"
  proof -
    define y where "y = real n * x"
    have y: "0 \<le> y" "y \<le> 1 / 2" using assms by (simp_all add: y_def)
    have "(1 + 2 * y) * (1 - y) = 1 + y * (1 - 2 * y)" by (simp add: algebra_simps)
    moreover have "0 \<le> y * (1 - 2 * y)" using y by (intro mult_nonneg_nonneg) simp_all
    ultimately have "1 \<le> (1 + 2 * y) * (1 - y)" by linarith
    moreover have "0 < 1 - y" using y by simp
    ultimately have "1 / (1 - y) \<le> 1 + 2 * y" by (simp add: pos_divide_le_eq)
    then show ?thesis by (simp add: y_def mult.assoc)
  qed
  finally show ?thesis .
qed

lemma pow_eps_lower:
  fixes x :: real
  assumes "0 \<le> x" "x \<le> 1"
  shows "1 - real n * x \<le> (1 - x) ^ n"
  using Bernoulli_inequality [of "- x" n] assms by simp

text \<open>
  The running sum of squares of \<open>n\<close> draws, each 0 or at least \<open>2\<^sup>-\<^sup>3\<^sup>2\<close> and at most 1,
  against the exact sum of their squares.
\<close>

lemma eps64_val: "eps64 = 1 / 2 ^ 53" by (simp add: eps64_def pow2_def)

lemma fround64_bracket:
  assumes "x = 0 \<or> pow2 (- 1022) \<le> x" "x \<le> pow2 k" "k \<le> 1023"
  shows "\<exists>y. fround binary64 x = Fin y \<and> 0 \<le> y \<and> y \<le> pow2 k
           \<and> bracket (1 - eps64) (1 + eps64) y x"
  using fround_within [of binary64 x k] assms
  by (simp add: binary64_def bracket_def eps64_def)

lemma sum_sq_floor:
  fixes U :: "nat \<Rightarrow> real"
  assumes "\<forall>i<n. 0 \<le> U i \<and> U i \<le> 1 \<and> (U i = 0 \<or> pow2 (- 32) \<le> U i)"
  shows "0 \<le> (\<Sum>i<n. (U i)\<^sup>2) \<and> (\<Sum>i<n. (U i)\<^sup>2) \<le> real n
         \<and> ((\<Sum>i<n. (U i)\<^sup>2) = 0 \<or> pow2 (- 64) \<le> (\<Sum>i<n. (U i)\<^sup>2))"
proof -
  have nn: "0 \<le> (\<Sum>i<n. (U i)\<^sup>2)" by (intro sum_nonneg) simp
  have "(U i)\<^sup>2 \<le> 1" if "i < n" for i
    using assms that by (simp add: power_le_one)
  then have "(\<Sum>i<n. (U i)\<^sup>2) \<le> (\<Sum>i<n. 1)" by (intro sum_mono) simp
  then have up: "(\<Sum>i<n. (U i)\<^sup>2) \<le> real n" by simp
  have fl: "(\<Sum>i<n. (U i)\<^sup>2) = 0 \<or> pow2 (- 64) \<le> (\<Sum>i<n. (U i)\<^sup>2)"
  proof (cases "\<forall>i<n. U i = 0")
    case True
    then show ?thesis by simp
  next
    case False
    then obtain i where i: "i < n" "U i \<noteq> 0" by blast
    with assms have "pow2 (- 32) \<le> U i" by blast
    then have "(pow2 (- 32))\<^sup>2 \<le> (U i)\<^sup>2" by (intro power_mono) simp_all
    moreover have "(pow2 (- 32))\<^sup>2 = pow2 (- 64)"
      using pow2_add [of "- 32" "- 32"] by (simp add: power2_eq_square)
    moreover have "(U i)\<^sup>2 \<le> (\<Sum>i<n. (U i)\<^sup>2)"
      using i(1) by (intro member_le_sum) simp_all
    ultimately show ?thesis by simp
  qed
  show ?thesis using nn up fl by blast
qed

lemma pow_1m_eps_half:
  assumes "m \<le> 2 ^ 21"
  shows "1 / 2 \<le> (1 - eps64) ^ m" "(1 - eps64) ^ m \<le> 1" "1 \<le> (1 + eps64) ^ m"
    "(1 + eps64) ^ m \<le> 2" "0 < (1 - eps64) ^ m"
proof -
  have m: "real m \<le> 2 ^ 21" using assms by (metis of_nat_le_iff of_nat_numeral of_nat_power)
  have e: "0 \<le> eps64" "eps64 \<le> 1" by (simp_all add: eps64_val)
  have me: "real m * eps64 \<le> 2 ^ 21 * eps64" using m e by (intro mult_right_mono) simp_all
  then have me': "real m * eps64 \<le> 1 / 2 ^ 32" by (simp add: eps64_val)
  have "1 - real m * eps64 \<le> (1 - eps64) ^ m" using e by (rule pow_eps_lower)
  then show a: "1 / 2 \<le> (1 - eps64) ^ m" using me' by simp
  then show "0 < (1 - eps64) ^ m" by linarith
  show "(1 - eps64) ^ m \<le> 1" using e by (intro power_le_one) simp_all
  show "1 \<le> (1 + eps64) ^ m" using e by (intro one_le_power) simp
  have "(1 + eps64) ^ m \<le> 1 + 2 * real m * eps64"
    using e me' by (intro pow_eps_upper) simp_all
  then show "(1 + eps64) ^ m \<le> 2" using me' by simp
qed

lemma sum_squares_snoc:
  "sum_squares (us @ [u]) = fadd binary64 (sum_squares us) (fmul binary64 u u)"
  by (simp add: sum_squares_def)

lemma sum_squares_bracket:
  fixes U :: "nat \<Rightarrow> real"
  assumes "\<forall>i<n. 0 \<le> U i \<and> U i \<le> 1 \<and> (U i = 0 \<or> pow2 (- 32) \<le> U i)" "n \<le> 2 ^ 20"
  shows "\<exists>S. sum_squares (map (\<lambda>i. Fin (U i)) [0..<n]) = Fin S \<and> 0 \<le> S
           \<and> bracket ((1 - eps64) ^ (n + 1)) ((1 + eps64) ^ (n + 1)) S (\<Sum>i<n. (U i)\<^sup>2)"
  using assms
proof (induction n)
  case 0
  show ?case by (simp add: sum_squares_def bracket_def)
next
  case (Suc n)
  then obtain S where S: "sum_squares (map (\<lambda>i. Fin (U i)) [0..<n]) = Fin S" "0 \<le> S"
      "bracket ((1 - eps64) ^ (n + 1)) ((1 + eps64) ^ (n + 1)) S (\<Sum>i<n. (U i)\<^sup>2)"
    by auto
  let ?Q = "\<Sum>i<Suc n. (U i)\<^sup>2"
  let ?L = "(1 - eps64) ^ (n + 1)" and ?H = "(1 + eps64) ^ (n + 1)"
  have n1: "n + 1 \<le> 2 ^ 21" "n + 1 \<le> 2 ^ 20" using Suc.prems(2) by simp_all
  note P = pow_1m_eps_half [OF n1(1)]
  have Un: "0 \<le> U n" "U n \<le> 1" "U n = 0 \<or> pow2 (- 32) \<le> U n" using Suc.prems(1) by auto
  have Q: "0 \<le> ?Q" "?Q \<le> real (Suc n)" "?Q = 0 \<or> pow2 (- 64) \<le> ?Q"
    using sum_sq_floor [of "Suc n" U] Suc.prems(1) by blast+
  have Qn: "0 \<le> (\<Sum>i<n. (U i)\<^sup>2)" by (intro sum_nonneg) simp
  \<comment> \<open>the square\<close>
  have sq_lo: "U n * U n = 0 \<or> pow2 (- 1022) \<le> U n * U n"
  proof (cases "U n = 0")
    case True then show ?thesis by simp
  next
    case False
    then have "pow2 (- 32) \<le> U n" using Un by simp
    then have "pow2 (- 32) * pow2 (- 32) \<le> U n * U n" using Un(1) by (intro mult_mono) simp_all
    moreover have "pow2 (- 1022) \<le> pow2 (- 32) * pow2 (- 32)"
      using pow2_mono [of "- 1022" "- 32 + - 32"] by (simp only: pow2_add)
    ultimately show ?thesis by simp
  qed
  have sq_hi: "U n * U n \<le> pow2 0" using Un by (simp add: mult_le_one)
  obtain t where t: "fround binary64 (U n * U n) = Fin t" "0 \<le> t"
      "bracket (1 - eps64) (1 + eps64) t (U n * U n)"
    using fround64_bracket [OF sq_lo sq_hi] by auto
  have e: "0 \<le> eps64" "eps64 \<le> 1" by (simp_all add: eps64_val)
  have L1: "?L \<le> 1 - eps64"
  proof -
    have "(1 - eps64) ^ (n + 1) = (1 - eps64) * (1 - eps64) ^ n" by simp
    also have "\<dots> \<le> (1 - eps64) * 1"
      using e by (intro mult_left_mono power_le_one) simp_all
    finally show ?thesis by simp
  qed
  have H1: "1 + eps64 \<le> ?H"
  proof -
    have "(1 + eps64) * 1 \<le> (1 + eps64) * (1 + eps64) ^ n"
      using e by (intro mult_left_mono one_le_power) simp_all
    then show ?thesis by simp
  qed
  have tb: "bracket ?L ?H t ((U n)\<^sup>2)"
    using bracket_weaken [OF t(3) L1 H1] by (simp add: power2_eq_square)
  have xb: "bracket ?L ?H (S + t) ?Q"
    using bracket_add [OF S(3) tb] by simp
  \<comment> \<open>the sum\<close>
  have x_lo: "S + t = 0 \<or> pow2 (- 1022) \<le> S + t"
  proof (cases "?Q = 0")
    case True
    then have "S + t \<le> 0" using xb by (simp add: bracket_def)
    then show ?thesis using S(2) t(2) by simp
  next
    case False
    then have "pow2 (- 64) \<le> ?Q" using Q by simp
    then have "1 / 2 * pow2 (- 64) \<le> ?L * ?Q"
      using P(1) by (intro mult_mono) simp_all
    also have "\<dots> \<le> S + t" using xb by (simp add: bracket_def)
    finally have "1 / 2 * pow2 (- 64) \<le> S + t" .
    moreover have "pow2 (- 1022) \<le> 1 / 2 * pow2 (- 64)"
      using pow2_mono [of "- 1022" "- 65"] pow2_succ [of "- 65"] by simp
    ultimately show ?thesis by simp
  qed
  have x_hi: "S + t \<le> pow2 21"
  proof -
    have "S + t \<le> ?H * ?Q" using xb by (simp add: bracket_def)
    also have "\<dots> \<le> 2 * real (Suc n)"
      using P(4) Q by (intro mult_mono) simp_all
    also have "\<dots> \<le> 2 * 2 ^ 20"
      using Suc.prems(2) by (simp add: numeral_power_le_of_nat_cancel_iff[symmetric] del: of_nat_Suc)
    finally show ?thesis by (simp add: pow2_def)
  qed
  obtain S' where S': "fround binary64 (S + t) = Fin S'" "0 \<le> S'"
      "bracket (1 - eps64) (1 + eps64) S' (S + t)"
    using fround64_bracket [OF x_lo x_hi] by auto
  have "bracket ((1 - eps64) * ?L) ((1 + eps64) * ?H) S' ?Q"
    using bracket_trans [OF xb S'(3)] e by simp
  then have "bracket ((1 - eps64) ^ (Suc n + 1)) ((1 + eps64) ^ (Suc n + 1)) S' ?Q" by simp
  moreover have "sum_squares (map (\<lambda>i. Fin (U i)) [0..<Suc n]) = Fin S'"
    by (simp add: sum_squares_snoc S(1) t(1) S'(1))
  ultimately show ?case using S'(2) by blast
qed

text \<open>The square root of the sum, and one element: cast, divided, cast again.\<close>

lemma kap_val: "kap = 1 / 2 ^ 24" by (simp add: kap_def pow2_def)

lemma sqrt_pow2_even: "sqrt (pow2 (2 * k)) = pow2 k"
proof -
  have "pow2 (2 * k) = pow2 k * pow2 k" using pow2_add [of k k] by simp
  then show ?thesis by simp
qed

lemma sqrt_bracket:
  assumes "pow2 (- 66) \<le> S" "S \<le> pow2 21"
  shows "\<exists>s. fsqrt binary64 (Fin S) = Fin s \<and> bracket (1 - eps64) (1 + eps64) s (sqrt S)
           \<and> pow2 (- 34) \<le> s \<and> s \<le> pow2 11"
proof -
  have S0: "0 < S" using assms(1) pow2_pos [of "- 66"] by linarith
  have "sqrt (pow2 (2 * (- 33))) \<le> sqrt S" using assms(1) by simp
  then have lo: "pow2 (- 33) \<le> sqrt S" by (simp only: sqrt_pow2_even)
  have "S \<le> pow2 (2 * 11)" using assms(2) pow2_mono [of 21 22] by simp
  then have "sqrt S \<le> sqrt (pow2 (2 * 11))" by simp
  then have hi: "sqrt S \<le> pow2 11" by (simp only: sqrt_pow2_even)
  have "pow2 (- 1022) \<le> pow2 (- 33)" by (rule pow2_mono) simp
  then have lo': "sqrt S = 0 \<or> pow2 (- 1022) \<le> sqrt S" using lo by linarith
  obtain s where s: "fround binary64 (sqrt S) = Fin s" "0 \<le> s" "s \<le> pow2 11"
      "bracket (1 - eps64) (1 + eps64) s (sqrt S)"
    using fround64_bracket [OF lo' hi] by auto
  have "1 / 2 * pow2 (- 33) \<le> (1 - eps64) * sqrt S"
    using lo by (intro mult_mono) (simp_all add: eps64_val)
  also have "\<dots> \<le> s" using s(4) by (simp add: bracket_def)
  finally have "1 / 2 * pow2 (- 33) \<le> s" .
  moreover have "pow2 (- 34 + 1) = 2 * pow2 (- 34)" by (rule pow2_succ)
  ultimately have "pow2 (- 34) \<le> s" by simp
  then show ?thesis using s S0 by auto
qed

lemma elem_bracket:
  assumes fmt: "24 \<le> prec fmt" "127 \<le> emax fmt"
    and u: "0 \<le> u" "u \<le> 1" "u = 0 \<or> pow2 (- 32) \<le> u"
    and s: "pow2 (- 34) \<le> s" "s \<le> pow2 11"
  shows "\<exists>x. fcast fmt (fdiv binary64 (fcast fmt (Fin u)) (Fin s)) = Fin x \<and> 0 \<le> x
           \<and> bracket ((1 - kap) ^ 3) ((1 + kap) ^ 3) x (u / s)"
proof -
  define eta where "eta = pow2 (- int (prec fmt))"
  have eta: "0 \<le> eta" "eta \<le> kap"
    unfolding eta_def kap_def using fmt(1) by (simp, intro pow2_mono, simp)
  have e: "0 \<le> eps64" "eps64 \<le> kap" "kap \<le> 1 / 2" by (simp_all add: eps64_val kap_val)
  have s0: "0 < s" using s(1) pow2_pos [of "- 34"] by linarith
  have p: "0 < prec fmt" using fmt(1) by simp
  \<comment> \<open>the first cast\<close>
  have "pow2 (1 - emax fmt) \<le> pow2 (- 32)" using fmt(2) by (intro pow2_mono) simp
  then have u_lo: "u = 0 \<or> pow2 (1 - emax fmt) \<le> u" using u(3) by linarith
  have u_hi: "u \<le> pow2 0" using u(2) by simp
  have k0: "0 \<le> emax fmt" using fmt(2) by simp
  obtain v where v: "fround fmt u = Fin v" "0 \<le> v" "v \<le> pow2 0"
      "(1 - eta) * u \<le> v" "v \<le> (1 + eta) * u"
    using fround_within [OF p u_lo u_hi k0] unfolding eta_def by blast
  have vb: "bracket (1 - eta) (1 + eta) v u" using v by (simp add: bracket_def)
  have v_lo: "v = 0 \<or> pow2 (- 33) \<le> v"
  proof (cases "u = 0")
    case True
    then have "v = 0" using v by simp
    then show ?thesis by simp
  next
    case False
    then have "pow2 (- 32) \<le> u" using u(3) by simp
    then have "1 / 2 * pow2 (- 32) \<le> (1 - eta) * u"
      using eta e by (intro mult_mono) simp_all
    moreover have "pow2 (- 33 + 1) = 2 * pow2 (- 33)" by (rule pow2_succ)
    ultimately show ?thesis using v(4) by simp
  qed
  \<comment> \<open>the division\<close>
  have d_lo: "v / s = 0 \<or> pow2 (- 1022) \<le> v / s"
  proof (cases "v = 0")
    case True then show ?thesis by simp
  next
    case False
    then have "pow2 (- 33) \<le> v" using v_lo by simp
    then have "pow2 (- 33) / pow2 11 \<le> v / s" using s s0 v(2) by (intro frac_le) simp_all
    moreover have "pow2 (- 33) = pow2 (- 44) * pow2 11" using pow2_add [of "- 44" 11] by simp
    moreover have "pow2 (- 1022) \<le> pow2 (- 44)" by (rule pow2_mono) simp
    ultimately show ?thesis by simp
  qed
  have d_hi: "v / s \<le> pow2 34"
  proof -
    have "v / s \<le> 1 / pow2 (- 34)" using v s s0 by (intro frac_le) simp_all
    moreover have "1 / pow2 (- 34) = pow2 34" by (simp add: pow2_def)
    ultimately show ?thesis by (simp only:)
  qed
  obtain q where q: "fround binary64 (v / s) = Fin q" "0 \<le> q" "q \<le> pow2 34"
      "bracket (1 - eps64) (1 + eps64) q (v / s)"
    using fround64_bracket [OF d_lo d_hi] by auto
  have q_lo: "q = 0 \<or> pow2 (1 - emax fmt) \<le> q"
  proof (cases "v = 0")
    case True
    then have "q = 0" using q by (simp add: bracket_def)
    then show ?thesis by simp
  next
    case False
    then have "pow2 (- 33) \<le> v" using v_lo by simp
    then have "pow2 (- 33) / pow2 11 \<le> v / s" using s s0 v(2) by (intro frac_le) simp_all
    moreover have "pow2 (- 33) = pow2 (- 44) * pow2 11" using pow2_add [of "- 44" 11] by simp
    ultimately have "pow2 (- 44) \<le> v / s" by simp
    then have "1 / 2 * pow2 (- 44) \<le> (1 - eps64) * (v / s)"
      by (intro mult_mono) (simp_all add: eps64_val)
    also have "\<dots> \<le> q" using q(4) by (simp add: bracket_def)
    finally have "1 / 2 * pow2 (- 44) \<le> q" .
    moreover have "pow2 (- 45 + 1) = 2 * pow2 (- 45)" by (rule pow2_succ)
    moreover have "pow2 (1 - emax fmt) \<le> pow2 (- 45)" using fmt(2) by (intro pow2_mono) simp
    ultimately show ?thesis by simp
  qed
  have k34: "34 \<le> emax fmt" using fmt(2) by simp
  obtain x where x: "fround fmt q = Fin x" "0 \<le> x" "(1 - eta) * q \<le> x" "x \<le> (1 + eta) * q"
    using fround_within [OF p q_lo q(3) k34] unfolding eta_def by blast
  have xb: "bracket (1 - eta) (1 + eta) x q" using x by (simp add: bracket_def)
  \<comment> \<open>together\<close>
  have "bracket ((1 - eta) / 1) ((1 + eta) / 1) (v / s) (u / s)"
    using vb s0 u(1) eta e by (intro bracket_div) (simp_all add: bracket_def)
  then have b1: "bracket (1 - eta) (1 + eta) (v / s) (u / s)" by simp
  have b2: "bracket ((1 - eps64) * (1 - eta)) ((1 + eps64) * (1 + eta)) q (u / s)"
    using bracket_trans [OF b1 q(4)] e by simp
  have b3: "bracket ((1 - eta) * ((1 - eps64) * (1 - eta))) ((1 + eta) * ((1 + eps64) * (1 + eta)))
      x (u / s)"
    using bracket_trans [OF b2 xb] eta e by simp
  have lo: "(1 - kap) ^ 3 \<le> (1 - eta) * ((1 - eps64) * (1 - eta))"
  proof -
    have "(1 - kap) * ((1 - kap) * (1 - kap)) \<le> (1 - eta) * ((1 - eps64) * (1 - eta))"
      using eta e by (intro mult_mono) simp_all
    then show ?thesis by (simp add: power3_eq_cube mult.assoc)
  qed
  have hi: "(1 + eta) * ((1 + eps64) * (1 + eta)) \<le> (1 + kap) ^ 3"
  proof -
    have "(1 + eta) * ((1 + eps64) * (1 + eta)) \<le> (1 + kap) * ((1 + kap) * (1 + kap))"
      using eta e by (intro mult_mono) simp_all
    then show ?thesis by (simp add: power3_eq_cube mult.assoc)
  qed
  have us: "0 \<le> u / s" using u(1) s0 by simp
  have "bracket ((1 - kap) ^ 3) ((1 + kap) ^ 3) x (u / s)"
    by (rule bracket_weaken [OF b3 lo hi us])
  moreover have "fcast fmt (fdiv binary64 (fcast fmt (Fin u)) (Fin s)) = Fin x"
    using s0 by (simp add: v(1) q(1) x(1))
  ultimately show ?thesis using x(2) by blast
qed

text \<open>The draws are 0, or at least \<open>2\<^sup>-\<^sup>3\<^sup>2\<close> and at most 1, when \<^verbatim>\<open>RAND_MAX\<close> is below \<open>2\<^sup>3\<^sup>1\<close>.\<close>

lemma draw_range:
  assumes "0 < RM" "RM < 2 ^ 31" "0 \<le> rnd k" "rnd k \<le> RM"
  shows "\<exists>u. draw RM rnd k = Fin u \<and> 0 \<le> u \<and> u \<le> 1 \<and> (rnd k = 0 \<longrightarrow> u = 0)
           \<and> (rnd k \<noteq> 0 \<longrightarrow> pow2 (- 32) \<le> u)"
proof -
  have RM53: "RM < 2 ^ 53" using assms(2) by simp
  have r: "double_of_int (rnd k) = Fin (of_int (rnd k))"
    using assms RM53 by (intro double_of_int_exact) simp_all
  have m: "double_of_int RM = Fin (of_int RM)"
    using assms RM53 by (intro double_of_int_exact) simp_all
  define rho :: real where "rho = of_int (rnd k) / of_int RM"
  have d: "draw RM rnd k = fround binary64 rho"
    using assms(1) by (simp add: draw_def r m rho_def)
  have rho: "0 \<le> rho" "rho \<le> 1" using assms by (simp_all add: rho_def)
  show ?thesis
  proof (cases "rnd k = 0")
    case True
    then show ?thesis by (simp add: d rho_def)
  next
    case False
    then have "1 \<le> rnd k" using assms(3) by simp
    then have "(1 :: real) \<le> of_int (rnd k)" by simp
    moreover have "(of_int RM :: real) \<le> 2 ^ 31" using assms(2) by simp
    moreover have "(0 :: real) < of_int RM" using assms(1) by simp
    ultimately have "1 / 2 ^ 31 \<le> rho" unfolding rho_def by (intro frac_le) simp_all
    then have lo: "pow2 (- 31) \<le> rho" by (simp add: pow2_def)
    have "pow2 (- 1022) \<le> pow2 (- 31)" by (rule pow2_mono) simp
    then have lo': "rho = 0 \<or> pow2 (- 1022) \<le> rho" using lo by linarith
    have hi: "rho \<le> pow2 0" using rho by simp
    obtain u where u: "fround binary64 rho = Fin u" "0 \<le> u" "u \<le> pow2 0"
        "bracket (1 - eps64) (1 + eps64) u rho"
      using fround64_bracket [OF lo' hi] by auto
    have "1 / 2 * pow2 (- 31) \<le> (1 - eps64) * rho"
      using lo by (intro mult_mono) (simp_all add: eps64_val)
    also have "\<dots> \<le> u" using u(4) by (simp add: bracket_def)
    finally have "1 / 2 * pow2 (- 31) \<le> u" .
    moreover have "pow2 (- 32 + 1) = 2 * pow2 (- 32)" by (rule pow2_succ)
    ultimately have "pow2 (- 32) \<le> u" by simp
    then show ?thesis using u False by (simp add: d)
  qed
qed

lemma sum_list_upt: "sum_list (map f [0..<n]) = (\<Sum>i<n. f i)"
  by (induction n) simp_all

lemma sqrt_near_one:
  assumes "(999 / 1000)\<^sup>2 \<le> N" "N \<le> (1001 / 1000)\<^sup>2"
  shows "\<bar>sqrt N - 1\<bar> \<le> 1 / 1000"
proof -
  have "999 / 1000 \<le> sqrt N" using assms(1) by (intro real_le_rsqrt)
  moreover have "sqrt N \<le> 1001 / 1000" using assms(2) by (intro real_le_lsqrt) simp_all
  ultimately show ?thesis by linarith
qed

text \<open>
  The draws of a vector, the running sum of their squares and the rounded square root of
  it, when one of the draws is not 0: the square of the divisor is the exact sum of
  squares up to a relative error below \<open>2\<^sup>-\<^sup>3\<^sup>1\<close>.
\<close>

lemma draws_setup:
  fixes g :: "nat \<Rightarrow> nat"
  assumes RM: "0 < RM" "RM < 2 ^ 31"
    and rnd: "\<forall>k. 0 \<le> rnd k \<and> rnd k \<le> RM"
    and d: "d \<le> 2 ^ 20"
    and nz: "\<exists>i<d. rnd (g i) \<noteq> 0"
  shows "\<exists>V S s. (\<forall>i. draw RM rnd (g i) = Fin (V i))
           \<and> (\<forall>i<d. 0 \<le> V i \<and> V i \<le> 1 \<and> (V i = 0 \<or> pow2 (- 32) \<le> V i))
           \<and> sum_squares (map (\<lambda>i. Fin (V i)) [0..<d]) = Fin S
           \<and> fsqrt binary64 (Fin S) = Fin s \<and> pow2 (- 34) \<le> s \<and> s \<le> pow2 11
           \<and> 1 / (1 + 1 / 2 ^ 31) \<le> (\<Sum>i<d. (V i)\<^sup>2) / s\<^sup>2
           \<and> (\<Sum>i<d. (V i)\<^sup>2) / s\<^sup>2 \<le> 1 / (1 - 1 / 2 ^ 32)"
proof -
  have "\<forall>k. \<exists>u. draw RM rnd k = Fin u \<and> 0 \<le> u \<and> u \<le> 1 \<and> (rnd k = 0 \<longrightarrow> u = 0)
           \<and> (rnd k \<noteq> 0 \<longrightarrow> pow2 (- 32) \<le> u)"
    using draw_range [OF RM] rnd by blast
  then obtain U where U: "\<forall>k. draw RM rnd k = Fin (U k) \<and> 0 \<le> U k \<and> U k \<le> 1
      \<and> (rnd k = 0 \<longrightarrow> U k = 0) \<and> (rnd k \<noteq> 0 \<longrightarrow> pow2 (- 32) \<le> U k)"
    by metis
  define V where "V i = U (g i)" for i
  have V: "\<forall>i<d. 0 \<le> V i \<and> V i \<le> 1 \<and> (V i = 0 \<or> pow2 (- 32) \<le> V i)"
    using U unfolding V_def by metis
  have dr: "\<forall>i. draw RM rnd (g i) = Fin (V i)" using U by (simp add: V_def)
  define Q where "Q = (\<Sum>i<d. (V i)\<^sup>2)"
  obtain S where S: "sum_squares (map (\<lambda>i. Fin (V i)) [0..<d]) = Fin S" "0 \<le> S"
      "bracket ((1 - eps64) ^ (d + 1)) ((1 + eps64) ^ (d + 1)) S Q"
    using sum_squares_bracket [OF V d] unfolding Q_def by blast
  \<comment> \<open>the sum of squares is neither tiny nor huge\<close>
  obtain i0 where i0: "i0 < d" "rnd (g i0) \<noteq> 0" using nz by blast
  then have "V i0 \<noteq> 0" using U pow2_pos [of "- 32"] unfolding V_def
    by (metis less_le_not_le)
  then have "0 < (V i0)\<^sup>2" by simp
  moreover have "(V i0)\<^sup>2 \<le> (\<Sum>i\<in>{..<d}. (V i)\<^sup>2)"
    using i0(1) by (intro member_le_sum) simp_all
  ultimately have Qnz: "Q \<noteq> 0" unfolding Q_def by linarith
  have Qf: "0 \<le> Q" "Q \<le> real d" "Q = 0 \<or> pow2 (- 64) \<le> Q"
    using sum_sq_floor [OF V] unfolding Q_def by blast+
  then have Q64: "pow2 (- 64) \<le> Q" using Qnz by simp
  have d1: "d + 1 \<le> 2 ^ 21" "d + 3 \<le> 2 ^ 21" using d by simp_all
  note P1 = pow_1m_eps_half [OF d1(1)]
  have S_lo: "pow2 (- 66) \<le> S"
  proof -
    have "1 / 2 * pow2 (- 64) \<le> (1 - eps64) ^ (d + 1) * Q"
      using P1(1) Q64 by (intro mult_mono) simp_all
    also have "\<dots> \<le> S" using S(3) by (simp add: bracket_def)
    finally have "1 / 2 * pow2 (- 64) \<le> S" .
    moreover have "pow2 (- 65 + 1) = 2 * pow2 (- 65)" by (rule pow2_succ)
    moreover have "pow2 (- 66) \<le> pow2 (- 65)" by (rule pow2_mono) simp
    ultimately show ?thesis by simp
  qed
  have S_hi: "S \<le> pow2 21"
  proof -
    have "S \<le> (1 + eps64) ^ (d + 1) * Q" using S(3) by (simp add: bracket_def)
    also have "\<dots> \<le> 2 * real d" using P1(4) Qf by (intro mult_mono) simp_all
    also have "\<dots> \<le> 2 * 2 ^ 20"
      using d by (simp add: numeral_power_le_of_nat_cancel_iff [symmetric])
    finally show ?thesis by (simp add: pow2_def)
  qed
  obtain s where s: "fsqrt binary64 (Fin S) = Fin s" "bracket (1 - eps64) (1 + eps64) s (sqrt S)"
      "pow2 (- 34) \<le> s" "s \<le> pow2 11"
    using sqrt_bracket [OF S_lo S_hi] by blast
  have s0: "0 < s" using s(3) pow2_pos [of "- 34"] by linarith
  \<comment> \<open>the square of the rounded root against the exact sum of squares\<close>
  have e: "0 \<le> eps64" "eps64 \<le> 1" by (simp_all add: eps64_val)
  have "bracket ((1 - eps64)\<^sup>2) ((1 + eps64)\<^sup>2) (s\<^sup>2) ((sqrt S)\<^sup>2)"
    using s(2) e S(2) by (intro bracket_sq) simp_all
  then have "bracket ((1 - eps64)\<^sup>2) ((1 + eps64)\<^sup>2) (s\<^sup>2) S" using S(2) by simp
  then have "bracket ((1 - eps64)\<^sup>2 * (1 - eps64) ^ (d + 1)) ((1 + eps64)\<^sup>2 * (1 + eps64) ^ (d + 1))
      (s\<^sup>2) Q"
    using bracket_trans [OF S(3)] by simp
  then have s2: "(1 - eps64) ^ (d + 3) * Q \<le> s\<^sup>2" "s\<^sup>2 \<le> (1 + eps64) ^ (d + 3) * Q"
    by (simp_all add: bracket_def power_add power2_eq_square mult_ac eval_nat_numeral)
  have dreal: "real (d + 3) \<le> 2 ^ 21"
    using d1(2) by (metis of_nat_le_iff of_nat_numeral of_nat_power)
  then have de: "real (d + 3) * eps64 \<le> 2 ^ 21 * eps64" using e by (intro mult_right_mono) simp_all
  have lo3: "1 - 1 / 2 ^ 32 \<le> (1 - eps64) ^ (d + 3)"
  proof -
    have "1 - real (d + 3) * eps64 \<le> (1 - eps64) ^ (d + 3)" using e by (rule pow_eps_lower)
    moreover have "2 ^ 21 * eps64 = 1 / 2 ^ 32" by (simp add: eps64_val)
    ultimately show ?thesis using de by linarith
  qed
  have hi3: "(1 + eps64) ^ (d + 3) \<le> 1 + 1 / 2 ^ 31"
  proof -
    have m: "2 ^ 21 * eps64 = 1 / 2 ^ 32" by (simp add: eps64_val)
    have "(1::real) / 2 ^ 32 \<le> 1 / 2" by simp
    then have "real (d + 3) * eps64 \<le> 1 / 2" using de m by linarith
    then have "(1 + eps64) ^ (d + 3) \<le> 1 + 2 * real (d + 3) * eps64"
      using e by (intro pow_eps_upper) simp_all
    moreover have "2 * real (d + 3) * eps64 \<le> 2 * (1 / 2 ^ 32)" using de m by linarith
    moreover have "2 * ((1::real) / 2 ^ 32) = 1 / 2 ^ 31" by simp
    ultimately show ?thesis by linarith
  qed
  have s2pos: "0 < s\<^sup>2" using s0 by simp
  have ratio_hi: "Q / s\<^sup>2 \<le> 1 / (1 - 1 / 2 ^ 32)"
  proof -
    have "(1 - 1 / 2 ^ 32) * Q \<le> (1 - eps64) ^ (d + 3) * Q"
      using lo3 Qf(1) by (intro mult_right_mono)
    then have "(1 - 1 / 2 ^ 32) * Q \<le> s\<^sup>2" using s2(1) by linarith
    then have "Q \<le> s\<^sup>2 / (1 - 1 / 2 ^ 32)" by (simp add: pos_le_divide_eq mult.commute)
    then show ?thesis using s2pos by (simp add: pos_divide_le_eq mult.commute)
  qed
  have ratio_lo: "1 / (1 + 1 / 2 ^ 31) \<le> Q / s\<^sup>2"
  proof -
    have "(1 + eps64) ^ (d + 3) * Q \<le> (1 + 1 / 2 ^ 31) * Q"
      using hi3 Qf(1) by (intro mult_right_mono)
    then have "s\<^sup>2 \<le> (1 + 1 / 2 ^ 31) * Q" using s2(2) by linarith
    then have "s\<^sup>2 / (1 + 1 / 2 ^ 31) \<le> Q" by (simp add: pos_divide_le_eq mult.commute)
    then show ?thesis using s2pos by (simp add: pos_le_divide_eq mult.commute)
  qed
  show ?thesis
    using dr V S(1) s(1,3,4) ratio_lo ratio_hi unfolding Q_def by blast
qed

lemma unit_norm_of_squares:
  assumes "(999 / 1000)\<^sup>2 \<le> (\<Sum>i<d. (X i)\<^sup>2)" "(\<Sum>i<d. (X i)\<^sup>2) \<le> (1001 / 1000)\<^sup>2"
  shows "unit_norm (map (\<lambda>i. SF (Fin (X i))) [0..<d])"
proof -
  have fin: "list_all is_finite_scalar (map (\<lambda>i. SF (Fin (X i))) [0..<d])"
    by (simp add: list_all_iff)
  have nrm: "l2_norm (map (\<lambda>i. SF (Fin (X i))) [0..<d]) = sqrt (\<Sum>i<d. (X i)\<^sup>2)"
    by (simp add: l2_norm_def comp_def sum_list_upt)
  have "\<bar>sqrt (\<Sum>i<d. (X i)\<^sup>2) - 1\<bar> \<le> 1 / 1000" using assms by (rule sqrt_near_one)
  then show ?thesis unfolding unit_norm_def using fin nrm by simp
qed

text \<open>
  A normalized vector has unit norm: its elements are finite and the exact norm of the
  stored values is within \<open>1/1000\<close> of 1. For a format of at least 24 bits of precision it
  is enough that one of the draws is not 0.
\<close>

lemma normalized_unit_norm:
  fixes g :: "nat \<Rightarrow> nat"
  assumes fmt: "24 \<le> prec fmt" "127 \<le> emax fmt"
    and RM: "0 < RM" "RM < 2 ^ 31"
    and rnd: "\<forall>k. 0 \<le> rnd k \<and> rnd k \<le> RM"
    and d: "d \<le> 2 ^ 20"
    and nz: "\<exists>i<d. rnd (g i) \<noteq> 0"
  shows "unit_norm (map (\<lambda>i. SF (fcast fmt (fdiv binary64 (fcast fmt (draw RM rnd (g i)))
            (fsqrt binary64 (sum_squares (map (\<lambda>i. draw RM rnd (g i)) [0..<d]))))))
          [0..<d])"
proof -
  obtain V S s where dr: "\<forall>i. draw RM rnd (g i) = Fin (V i)"
      and V: "\<forall>i<d. 0 \<le> V i \<and> V i \<le> 1 \<and> (V i = 0 \<or> pow2 (- 32) \<le> V i)"
      and S: "sum_squares (map (\<lambda>i. Fin (V i)) [0..<d]) = Fin S"
      and s: "fsqrt binary64 (Fin S) = Fin s" "pow2 (- 34) \<le> s" "s \<le> pow2 11"
      and ratio_lo: "1 / (1 + 1 / 2 ^ 31) \<le> (\<Sum>i<d. (V i)\<^sup>2) / s\<^sup>2"
      and ratio_hi: "(\<Sum>i<d. (V i)\<^sup>2) / s\<^sup>2 \<le> 1 / (1 - 1 / 2 ^ 32)"
    using draws_setup [OF RM rnd d nz] by blast
  define Q where "Q = (\<Sum>i<d. (V i)\<^sup>2)"
  have s0: "0 < s" using s(2) pow2_pos [of "- 34"] by linarith
  \<comment> \<open>the elements\<close>
  have "\<forall>i. \<exists>x. i < d \<longrightarrow> fcast fmt (fdiv binary64 (fcast fmt (Fin (V i))) (Fin s)) = Fin x
      \<and> 0 \<le> x \<and> bracket ((1 - kap) ^ 3) ((1 + kap) ^ 3) x (V i / s)"
    using elem_bracket [OF fmt _ _ _ s(2,3)] V by blast
  then obtain X where X: "\<forall>i<d. fcast fmt (fdiv binary64 (fcast fmt (Fin (V i))) (Fin s)) = Fin (X i)
      \<and> 0 \<le> X i \<and> bracket ((1 - kap) ^ 3) ((1 + kap) ^ 3) (X i) (V i / s)"
    by metis
  have vec: "map (\<lambda>i. SF (fcast fmt (fdiv binary64 (fcast fmt (draw RM rnd (g i)))
            (fsqrt binary64 (sum_squares (map (\<lambda>i. draw RM rnd (g i)) [0..<d]))))))
          [0..<d] = map (\<lambda>i. SF (Fin (X i))) [0..<d]"
    unfolding dr [rule_format] S s(1) using X by (intro map_cong refl) simp
  define N where "N = (\<Sum>i<d. (X i)\<^sup>2)"
  \<comment> \<open>the norm\<close>
  have k: "0 \<le> kap" "kap \<le> 1 / 2" by (simp_all add: kap_val)
  have k3: "0 \<le> (1 - kap) ^ 3" using k by simp
  have "bracket (((1 - kap) ^ 3)\<^sup>2) (((1 + kap) ^ 3)\<^sup>2) ((X i)\<^sup>2) ((V i / s)\<^sup>2)"
    if "i < d" for i
    using X V s0 that k3 by (intro bracket_sq) simp_all
  then have "bracket (((1 - kap) ^ 3)\<^sup>2) (((1 + kap) ^ 3)\<^sup>2) N (\<Sum>i<d. (V i / s)\<^sup>2)"
    unfolding N_def by (intro bracket_sum) simp
  moreover have "(\<Sum>i<d. (V i / s)\<^sup>2) = Q / s\<^sup>2"
    by (simp add: Q_def power_divide sum_divide_distrib)
  ultimately have Nb: "((1 - kap) ^ 3)\<^sup>2 * (Q / s\<^sup>2) \<le> N" "N \<le> ((1 + kap) ^ 3)\<^sup>2 * (Q / s\<^sup>2)"
    by (simp_all add: bracket_def)
  have k6lo: "1 - 6 * kap \<le> ((1 - kap) ^ 3)\<^sup>2"
  proof -
    have "1 - real 6 * kap \<le> (1 - kap) ^ 6" using k by (intro pow_eps_lower) simp_all
    moreover have "((1 - kap) ^ 3)\<^sup>2 = (1 - kap) ^ 6" by (simp add: power_mult [symmetric])
    ultimately show ?thesis by simp
  qed
  have k6hi: "((1 + kap) ^ 3)\<^sup>2 \<le> 1 + 12 * kap"
  proof -
    have "(1 + kap) ^ 6 \<le> 1 + 2 * real 6 * kap"
      using k by (intro pow_eps_upper) (simp_all add: kap_val)
    moreover have "((1 + kap) ^ 3)\<^sup>2 = (1 + kap) ^ 6" by (simp add: power_mult [symmetric])
    ultimately show ?thesis by simp
  qed
  have Q0: "0 \<le> Q" unfolding Q_def by (intro sum_nonneg) simp
  have rpos: "0 \<le> Q / s\<^sup>2" using Q0 s0 by simp
  have "N \<le> (1 + 12 * kap) * (1 / (1 - 1 / 2 ^ 32))"
  proof -
    have "N \<le> ((1 + kap) ^ 3)\<^sup>2 * (Q / s\<^sup>2)" by (rule Nb(2))
    also have "\<dots> \<le> (1 + 12 * kap) * (1 / (1 - 1 / 2 ^ 32))"
      using k6hi ratio_hi rpos k unfolding Q_def [symmetric] by (intro mult_mono) simp_all
    finally show ?thesis .
  qed
  moreover have "(1 + 12 * kap) * (1 / (1 - 1 / 2 ^ 32)) \<le> (1001 / 1000)\<^sup>2"
    by (simp add: kap_val power2_eq_square)
  ultimately have Nhi: "N \<le> (1001 / 1000)\<^sup>2" by linarith
  have "(1 - 6 * kap) * (1 / (1 + 1 / 2 ^ 31)) \<le> N"
  proof -
    have "(1 - 6 * kap) * (1 / (1 + 1 / 2 ^ 31)) \<le> ((1 - kap) ^ 3)\<^sup>2 * (Q / s\<^sup>2)"
      using k6lo ratio_lo k unfolding Q_def [symmetric] by (intro mult_mono) (simp_all add: kap_val)
    also have "\<dots> \<le> N" by (rule Nb(1))
    finally show ?thesis .
  qed
  moreover have "(999 / 1000)\<^sup>2 \<le> (1 - 6 * kap) * (1 / (1 + 1 / 2 ^ 31))"
    by (simp add: kap_val power2_eq_square)
  ultimately have Nlo: "(999 / 1000)\<^sup>2 \<le> N" by linarith
  show ?thesis unfolding vec using Nlo Nhi unfolding N_def by (rule unit_norm_of_squares)
qed

text \<open>
  Below the normal range a rounding moves a value by at most half the spacing of the
  subnormals; over the whole range the error is at most the sum of the relative and of
  this absolute bound.
\<close>

lemma fround_mixed:
  assumes p: "0 < prec fmt" and x0: "0 \<le> x" and hi: "x \<le> pow2 k"
    and k: "k \<le> emax fmt" and kl: "1 - emax fmt \<le> k"
  shows "\<exists>y. fround fmt x = Fin y \<and> 0 \<le> y \<and> y \<le> pow2 k
           \<and> \<bar>y - x\<bar> \<le> pow2 (- int (prec fmt)) * x + pow2 (1 - emax fmt - int (prec fmt))"
proof (cases "x = 0 \<or> pow2 (1 - emax fmt) \<le> x")
  case True
  obtain y where y: "fround fmt x = Fin y" "0 \<le> y" "y \<le> pow2 k"
      "(1 - pow2 (- int (prec fmt))) * x \<le> y" "y \<le> (1 + pow2 (- int (prec fmt))) * x"
    using fround_within [OF p True hi k] by blast
  have "\<bar>y - x\<bar> \<le> pow2 (- int (prec fmt)) * x"
    using y(4,5) by (simp add: abs_le_iff algebra_simps)
  moreover have "0 \<le> pow2 (1 - emax fmt - int (prec fmt))" by simp
  ultimately have "\<bar>y - x\<bar> \<le> pow2 (- int (prec fmt)) * x + pow2 (1 - emax fmt - int (prec fmt))"
    by linarith
  then show ?thesis using y by blast
next
  case False
  then have xn: "x \<noteq> 0" and xs: "x < pow2 (1 - emax fmt)" by simp_all
  have x: "0 < x" using x0 xn by simp
  have il: "ilog2 x < 1 - emax fmt" using x xs by (rule ilog2_less)
  have me: "max (ilog2 \<bar>x\<bar>) (1 - emax fmt) = 1 - emax fmt" using x il by simp
  define j where "j = 1 - emax fmt - int (prec fmt) + 1"
  have jc: "max (ilog2 \<bar>x\<bar>) (1 - emax fmt) - int (prec fmt) + 1 \<le> 1 - emax fmt"
    unfolding me using p by simp
  have em: "1 - emax fmt \<le> emax fmt" using k kl by linarith
  have ov: "of_int 1 * pow2 (1 - emax fmt) < pow2 (emax fmt + 1)"
  proof -
    have "pow2 (1 - emax fmt) \<le> pow2 (emax fmt)" using em by (rule pow2_mono)
    moreover have "pow2 (emax fmt + 1) = 2 * pow2 (emax fmt)" by (rule pow2_succ)
    moreover have "0 < pow2 (emax fmt)" by (rule pow2_pos)
    ultimately have "pow2 (1 - emax fmt) < pow2 (emax fmt + 1)" by linarith
    then show ?thesis by simp
  qed
  have le: "\<bar>x\<bar> \<le> of_int 1 * pow2 (1 - emax fmt)" using x xs by simp
  obtain y where y: "fround fmt x = Fin y" "\<bar>y\<bar> \<le> of_int 1 * pow2 (1 - emax fmt)" "0 \<le> x \<longrightarrow> 0 \<le> y"
    using fround_abs_le [OF xn le jc ov] by blast
  have y0: "0 \<le> y" using y(3) x0 by simp
  have "pow2 (1 - emax fmt) \<le> pow2 k" using kl by (rule pow2_mono)
  then have yk: "y \<le> pow2 k" using y(2) by simp
  have yv: "y = of_int (rne (x / pow2 j)) * pow2 j"
    using y(1) xn by (simp add: fround_def Let_def me j_def split: if_splits)
  have "\<bar>y - x\<bar> = \<bar>of_int (rne (x / pow2 j)) - x / pow2 j\<bar> * pow2 j"
  proof -
    have "y - x = (of_int (rne (x / pow2 j)) - x / pow2 j) * pow2 j"
      by (simp add: yv left_diff_distrib)
    then show ?thesis by (simp add: abs_mult)
  qed
  also have "\<dots> \<le> 1 / 2 * pow2 j"
    by (intro mult_right_mono rne_err) simp
  also have "\<dots> = pow2 (1 - emax fmt - int (prec fmt))"
  proof -
    have "pow2 j = 2 * pow2 (1 - emax fmt - int (prec fmt))"
      unfolding j_def by (rule pow2_succ)
    then show ?thesis by simp
  qed
  finally have "\<bar>y - x\<bar> \<le> pow2 (1 - emax fmt - int (prec fmt))" .
  moreover have "0 \<le> pow2 (- int (prec fmt)) * x" using x0 by simp
  ultimately have "\<bar>y - x\<bar> \<le> pow2 (- int (prec fmt)) * x + pow2 (1 - emax fmt - int (prec fmt))"
    by linarith
  then show ?thesis using y(1) y0 yk by blast
qed

lemma abs_to_bounds:
  fixes u :: real
  assumes "\<bar>v - u\<bar> \<le> e * u + w" "e \<le> e'" "w \<le> w'" "0 \<le> u"
  shows "(1 - e') * u - w' \<le> v" "v \<le> (1 + e') * u + w'"
proof -
  have "e * u \<le> e' * u" using assms(2,4) by (rule mult_right_mono)
  then have "\<bar>v - u\<bar> \<le> e' * u + w'" using assms(1,3) by linarith
  then show "(1 - e') * u - w' \<le> v" "v \<le> (1 + e') * u + w'"
    by (simp_all add: abs_le_iff algebra_simps)
qed

lemma chain_upper:
  fixes r :: real
  assumes "0 \<le> c1" "0 \<le> c2" "z \<le> h1 * r + b1" "q \<le> c1 * z + b2" "x \<le> c2 * q + b3"
  shows "x \<le> c2 * c1 * h1 * r + (c2 * c1 * b1 + c2 * b2 + b3)"
proof -
  have "c1 * z \<le> c1 * (h1 * r + b1)" using assms(1,3) by (rule mult_left_mono [rotated])
  then have "q \<le> c1 * (h1 * r + b1) + b2" using assms(4) by linarith
  then have "c2 * q \<le> c2 * (c1 * (h1 * r + b1) + b2)" using assms(2) by (rule mult_left_mono)
  then have "x \<le> c2 * (c1 * (h1 * r + b1) + b2) + b3" using assms(5) by linarith
  then show ?thesis by (simp add: algebra_simps)
qed

lemma chain_lower:
  fixes r :: real
  assumes "0 \<le> c1" "0 \<le> c2" "l1 * r - b1 \<le> z" "c1 * z - b2 \<le> q" "c2 * q - b3 \<le> x"
  shows "c2 * c1 * l1 * r - (c2 * c1 * b1 + c2 * b2 + b3) \<le> x"
proof -
  have "c1 * (l1 * r - b1) \<le> c1 * z" using assms(1,3) by (rule mult_left_mono [rotated])
  then have "c1 * (l1 * r - b1) - b2 \<le> q" using assms(4) by linarith
  then have "c2 * (c1 * (l1 * r - b1) - b2) \<le> c2 * q" using assms(2) by (rule mult_left_mono)
  then have "c2 * (c1 * (l1 * r - b1) - b2) - b3 \<le> x" using assms(5) by linarith
  then show ?thesis by (simp add: algebra_simps)
qed

lemma sq_near:
  fixes x :: real
  assumes x: "0 \<le> x" and p: "0 \<le> p" and b: "0 \<le> bt" and t: "0 < t" "t \<le> 1"
    and lo: "p' - bt \<le> x" and hi: "x \<le> p + bt" and p': "0 \<le> p'"
  shows "(1 - t) * p'\<^sup>2 - bt\<^sup>2 / t \<le> x\<^sup>2" "x\<^sup>2 \<le> (1 + t) * p\<^sup>2 + (1 + 1 / t) * bt\<^sup>2"
proof -
  have young: "2 * c * bt \<le> t * c\<^sup>2 + bt\<^sup>2 / t" for c :: real
  proof -
    have "0 \<le> (t * c - bt)\<^sup>2 / t" using t by simp
    also have "(t * c - bt)\<^sup>2 / t = t * c\<^sup>2 - 2 * c * bt + bt\<^sup>2 / t"
      using t by (simp add: power2_eq_square field_simps)
    finally show ?thesis by linarith
  qed
  have "x\<^sup>2 \<le> (p + bt)\<^sup>2" using x hi by (intro power_mono) simp_all
  also have "(p + bt)\<^sup>2 = p\<^sup>2 + 2 * p * bt + bt\<^sup>2" by (simp add: power2_eq_square algebra_simps)
  also have "\<dots> \<le> p\<^sup>2 + (t * p\<^sup>2 + bt\<^sup>2 / t) + bt\<^sup>2" using young [of p] by linarith
  also have "\<dots> = (1 + t) * p\<^sup>2 + (1 + 1 / t) * bt\<^sup>2" by (simp add: algebra_simps)
  finally show "x\<^sup>2 \<le> (1 + t) * p\<^sup>2 + (1 + 1 / t) * bt\<^sup>2" .
  show "(1 - t) * p'\<^sup>2 - bt\<^sup>2 / t \<le> x\<^sup>2"
  proof (cases "bt \<le> p'")
    case True
    then have "(p' - bt)\<^sup>2 \<le> x\<^sup>2" using lo by (intro power_mono) simp_all
    moreover have "(p' - bt)\<^sup>2 = p'\<^sup>2 - 2 * p' * bt + bt\<^sup>2" by (simp add: power2_eq_square algebra_simps)
    moreover have "0 \<le> bt\<^sup>2" by simp
    ultimately have "p'\<^sup>2 - (t * p'\<^sup>2 + bt\<^sup>2 / t) \<le> x\<^sup>2" using young [of p'] by linarith
    then show ?thesis by (simp add: algebra_simps)
  next
    case False
    then have "p'\<^sup>2 \<le> bt\<^sup>2" using p' by (intro power_mono) simp_all
    moreover have "bt\<^sup>2 \<le> bt\<^sup>2 / t" using t by (simp add: pos_le_divide_eq mult_left_le)
    moreover have "(1 - t) * p'\<^sup>2 \<le> 1 * p'\<^sup>2" using t by (intro mult_right_mono) simp_all
    moreover have "0 \<le> x\<^sup>2" by simp
    ultimately show ?thesis by linarith
  qed
qed

text \<open>
  One element in a format of at least 11 bits of precision, the divisor being at least
  \<open>31/64\<close>: the relative error of the two casts stays below \<open>2\<^sup>-\<^sup>1\<^sup>1\<close> each, the absolute
  error below \<open>2\<^sup>-\<^sup>2\<^sup>3\<close>.
\<close>

lemma elem_mixed:
  assumes fmt: "11 \<le> prec fmt" "15 \<le> emax fmt"
    and u: "0 \<le> u" "u \<le> 1"
    and s: "31 / 64 \<le> s"
  shows "\<exists>x. fcast fmt (fdiv binary64 (fcast fmt (Fin u)) (Fin s)) = Fin x \<and> 0 \<le> x
           \<and> (1 - 1 / 2 ^ 11) * (1 - 1 / 2 ^ 53) * (1 - 1 / 2 ^ 11) * (u / s) - 1 / 2 ^ 23 \<le> x
           \<and> x \<le> (1 + 1 / 2 ^ 11) * (1 + 1 / 2 ^ 53) * (1 + 1 / 2 ^ 11) * (u / s) + 1 / 2 ^ 23"
proof -
  have p: "0 < prec fmt" using fmt(1) by simp
  have s0: "0 < s" using s by simp
  have eta: "pow2 (- int (prec fmt)) \<le> 1 / 2 ^ 11"
  proof -
    have "pow2 (- int (prec fmt)) \<le> pow2 (- 11)" using fmt(1) by (intro pow2_mono) simp
    then show ?thesis by (simp add: pow2_def)
  qed
  have om: "pow2 (1 - emax fmt - int (prec fmt)) \<le> 1 / 2 ^ 25"
  proof -
    have "pow2 (1 - emax fmt - int (prec fmt)) \<le> pow2 (- 25)" using fmt by (intro pow2_mono) simp
    then show ?thesis by (simp add: pow2_def)
  qed
  have eta64: "pow2 (- int (prec binary64)) \<le> 1 / 2 ^ 53" by (simp add: binary64_def pow2_def)
  have om64: "pow2 (1 - emax binary64 - int (prec binary64)) \<le> 1 / 2 ^ 60"
  proof -
    have "pow2 (1 - emax binary64 - int (prec binary64)) \<le> pow2 (- 60)"
      by (intro pow2_mono) (simp add: binary64_def)
    then show ?thesis by (simp add: pow2_def)
  qed
  \<comment> \<open>the first cast\<close>
  have k0: "0 \<le> emax fmt" "1 - emax fmt \<le> 0" using fmt(2) by simp_all
  have u_hi: "u \<le> pow2 0" using u(2) by simp
  obtain v where v: "fround fmt u = Fin v" "0 \<le> v" "v \<le> pow2 0"
      "\<bar>v - u\<bar> \<le> pow2 (- int (prec fmt)) * u + pow2 (1 - emax fmt - int (prec fmt))"
    using fround_mixed [OF p u(1) u_hi k0] by blast
  note vb = abs_to_bounds [OF v(4) eta om u(1)]
  \<comment> \<open>the division\<close>
  define r where "r = 1 / s"
  have r: "0 \<le> r" "r \<le> 64 / 31"
  proof -
    show "0 \<le> r" using s0 by (simp add: r_def)
    have "1 / s \<le> 1 / (31 / 64)" using s by (intro divide_left_mono) simp_all
    then show "r \<le> 64 / 31" by (simp add: r_def)
  qed
  define z where "z = v / s"
  have zr: "z = v * r" "u / s = u * r" by (simp_all add: z_def r_def)
  have zl: "(1 - 1 / 2 ^ 11) * (u / s) - 1 / 2 ^ 25 * r \<le> z"
  proof -
    have "((1 - 1 / 2 ^ 11) * u - 1 / 2 ^ 25) * r \<le> v * r" using vb(1) r(1) by (rule mult_right_mono)
    then show ?thesis unfolding zr by (simp add: algebra_simps)
  qed
  have zh: "z \<le> (1 + 1 / 2 ^ 11) * (u / s) + 1 / 2 ^ 25 * r"
  proof -
    have "v * r \<le> ((1 + 1 / 2 ^ 11) * u + 1 / 2 ^ 25) * r" using vb(2) r(1) by (rule mult_right_mono)
    then show ?thesis unfolding zr by (simp add: algebra_simps)
  qed
  have z0: "0 \<le> z" using v(2) s0 by (simp add: z_def)
  have z2: "z \<le> pow2 2"
  proof -
    have "v * r \<le> 1 * (64 / 31)" using v(2,3) r by (intro mult_mono) simp_all
    then show ?thesis unfolding zr by (simp add: pow2_def)
  qed
  have k64: "2 \<le> emax binary64" "1 - emax binary64 \<le> 2" "0 < prec binary64"
    by (simp_all add: binary64_def)
  obtain q where q: "fround binary64 z = Fin q" "0 \<le> q" "q \<le> pow2 2"
      "\<bar>q - z\<bar> \<le> pow2 (- int (prec binary64)) * z
          + pow2 (1 - emax binary64 - int (prec binary64))"
    using fround_mixed [OF k64(3) z0 z2 k64(1,2)] by blast
  note qb = abs_to_bounds [OF q(4) eta64 om64 z0]
  \<comment> \<open>the second cast\<close>
  have k2: "2 \<le> emax fmt" "1 - emax fmt \<le> 2" using fmt(2) by simp_all
  obtain x where x: "fround fmt q = Fin x" "0 \<le> x"
      "\<bar>x - q\<bar> \<le> pow2 (- int (prec fmt)) * q + pow2 (1 - emax fmt - int (prec fmt))"
    using fround_mixed [OF p q(2,3) k2] by blast
  note xb = abs_to_bounds [OF x(3) eta om q(2)]
  \<comment> \<open>together\<close>
  have c: "(0::real) \<le> 1 + 1 / 2 ^ 53" "(0::real) \<le> 1 + 1 / 2 ^ 11"
      "(0::real) \<le> 1 - 1 / 2 ^ 53" "(0::real) \<le> 1 - 1 / 2 ^ 11" by simp_all
  have up: "x \<le> (1 + 1 / 2 ^ 11) * (1 + 1 / 2 ^ 53) * (1 + 1 / 2 ^ 11) * (u / s)
      + ((1 + 1 / 2 ^ 11) * (1 + 1 / 2 ^ 53) * (1 / 2 ^ 25 * r) + (1 + 1 / 2 ^ 11) * (1 / 2 ^ 60)
         + 1 / 2 ^ 25)"
    by (rule chain_upper [OF c(1,2) zh qb(2) xb(2)])
  have lw: "(1 - 1 / 2 ^ 11) * (1 - 1 / 2 ^ 53) * (1 - 1 / 2 ^ 11) * (u / s)
      - ((1 - 1 / 2 ^ 11) * (1 - 1 / 2 ^ 53) * (1 / 2 ^ 25 * r) + (1 - 1 / 2 ^ 11) * (1 / 2 ^ 60)
         + 1 / 2 ^ 25) \<le> x"
    by (rule chain_lower [OF c(3,4) zl qb(1) xb(1)])
  have bu: "(1 + 1 / 2 ^ 11) * (1 + 1 / 2 ^ 53) * (1 / 2 ^ 25 * r) + (1 + 1 / 2 ^ 11) * (1 / 2 ^ 60)
         + 1 / 2 ^ 25 \<le> 1 / 2 ^ 23"
  proof -
    have "(1 + 1 / 2 ^ 11) * (1 + 1 / 2 ^ 53) * (1 / 2 ^ 25 * r)
        \<le> (1 + 1 / 2 ^ 11) * (1 + 1 / 2 ^ 53) * (1 / 2 ^ 25 * (64 / 31))"
      using r(2) by (intro mult_left_mono) simp_all
    moreover have "(1 + 1 / 2 ^ 11) * (1 + 1 / 2 ^ 53) * (1 / 2 ^ 25 * (64 / 31))
        + (1 + 1 / 2 ^ 11) * (1 / 2 ^ 60) + 1 / 2 ^ 25 \<le> (1::real) / 2 ^ 23" by simp
    ultimately show ?thesis by linarith
  qed
  have bl: "(1 - 1 / 2 ^ 11) * (1 - 1 / 2 ^ 53) * (1 / 2 ^ 25 * r) + (1 - 1 / 2 ^ 11) * (1 / 2 ^ 60)
         + 1 / 2 ^ 25 \<le> 1 / 2 ^ 23"
  proof -
    have "(1 - 1 / 2 ^ 11) * (1 - 1 / 2 ^ 53) * (1 / 2 ^ 25 * r)
        \<le> (1 - 1 / 2 ^ 11) * (1 - 1 / 2 ^ 53) * (1 / 2 ^ 25 * (64 / 31))"
      using r(2) by (intro mult_left_mono) simp_all
    moreover have "(1 - 1 / 2 ^ 11) * (1 - 1 / 2 ^ 53) * (1 / 2 ^ 25 * (64 / 31))
        + (1 - 1 / 2 ^ 11) * (1 / 2 ^ 60) + 1 / 2 ^ 25 \<le> (1::real) / 2 ^ 23" by simp
    ultimately show ?thesis by linarith
  qed
  have "fcast fmt (fdiv binary64 (fcast fmt (Fin u)) (Fin s)) = Fin x"
    using s0 by (simp add: v(1) q(1) [unfolded z_def] x(1))
  moreover have "(1 - 1 / 2 ^ 11) * (1 - 1 / 2 ^ 53) * (1 - 1 / 2 ^ 11) * (u / s) - 1 / 2 ^ 23 \<le> x"
    using lw bl by linarith
  moreover have "x \<le> (1 + 1 / 2 ^ 11) * (1 + 1 / 2 ^ 53) * (1 + 1 / 2 ^ 11) * (u / s) + 1 / 2 ^ 23"
    using up bu by linarith
  ultimately show ?thesis using x(2) by blast
qed

lemma draw_half:
  assumes "0 < RM" "RM < 2 ^ 31" "0 \<le> rnd k" "rnd k \<le> RM" "RM \<le> 2 * rnd k"
  shows "\<exists>u. draw RM rnd k = Fin u \<and> (1 - 1 / 2 ^ 53) / 2 \<le> u"
proof -
  have RM53: "RM < 2 ^ 53" using assms(2) by simp
  have r: "double_of_int (rnd k) = Fin (of_int (rnd k))"
    using assms RM53 by (intro double_of_int_exact) simp_all
  have m: "double_of_int RM = Fin (of_int RM)"
    using assms RM53 by (intro double_of_int_exact) simp_all
  define rho :: real where "rho = of_int (rnd k) / of_int RM"
  have d: "draw RM rnd k = fround binary64 rho"
    using assms(1) by (simp add: draw_def r m rho_def)
  have "(of_int RM :: real) \<le> 2 * of_int (rnd k)" using assms(5) by (metis of_int_le_iff of_int_mult of_int_numeral)
  then have lo: "1 / 2 \<le> rho" using assms(1) by (simp add: rho_def pos_le_divide_eq)
  have hi: "rho \<le> pow2 0" using assms by (simp add: rho_def)
  have "pow2 (- 1022) \<le> pow2 (- 1)" by (rule pow2_mono) simp
  moreover have "pow2 (- 1) = 1 / 2" by (simp add: pow2_def)
  ultimately have lo': "rho = 0 \<or> pow2 (- 1022) \<le> rho" using lo by linarith
  obtain u where u: "fround binary64 rho = Fin u" "bracket (1 - eps64) (1 + eps64) u rho"
    using fround64_bracket [OF lo' hi] by auto
  have "(1 - eps64) * (1 / 2) \<le> (1 - eps64) * rho"
    using lo by (intro mult_left_mono) (simp_all add: eps64_val)
  also have "\<dots> \<le> u" using u(2) by (simp add: bracket_def)
  finally have "(1 - 1 / 2 ^ 53) / 2 \<le> u" by (simp add: eps64_val)
  then show ?thesis using u(1) d by simp
qed

lemma norm_sq_bounds:
  fixes X A :: "nat \<Rightarrow> real"
  assumes el: "\<forall>i<d. 0 \<le> X i \<and> 0 \<le> A i \<and> L * A i - bt \<le> X i \<and> X i \<le> H * A i + bt"
    and LH: "0 \<le> L" "0 \<le> H" and bt: "0 \<le> bt" and t: "0 < t" "t \<le> 1"
  shows "(1 - t) * (L\<^sup>2 * (\<Sum>i<d. (A i)\<^sup>2)) - real d * (bt\<^sup>2 / t) \<le> (\<Sum>i<d. (X i)\<^sup>2)"
    and "(\<Sum>i<d. (X i)\<^sup>2) \<le> (1 + t) * (H\<^sup>2 * (\<Sum>i<d. (A i)\<^sup>2)) + real d * ((1 + 1 / t) * bt\<^sup>2)"
proof -
  have e: "(1 - t) * (L\<^sup>2 * (A i)\<^sup>2) - bt\<^sup>2 / t \<le> (X i)\<^sup>2
      \<and> (X i)\<^sup>2 \<le> (1 + t) * (H\<^sup>2 * (A i)\<^sup>2) + (1 + 1 / t) * bt\<^sup>2" if "i < d" for i
  proof -
    have x: "0 \<le> X i" "0 \<le> A i" "L * A i - bt \<le> X i" "X i \<le> H * A i + bt"
      using el that by simp_all
    have p: "0 \<le> H * A i" "0 \<le> L * A i" using LH x(2) by simp_all
    have "(1 - t) * (L * A i)\<^sup>2 - bt\<^sup>2 / t \<le> (X i)\<^sup>2"
      by (rule sq_near(1) [OF x(1) p(1) bt t x(3,4) p(2)])
    moreover have "(X i)\<^sup>2 \<le> (1 + t) * (H * A i)\<^sup>2 + (1 + 1 / t) * bt\<^sup>2"
      by (rule sq_near(2) [OF x(1) p(1) bt t x(3,4) p(2)])
    ultimately show ?thesis by (simp only: power_mult_distrib)
  qed
  have "(\<Sum>i<d. (X i)\<^sup>2) \<le> (\<Sum>i<d. (1 + t) * (H\<^sup>2 * (A i)\<^sup>2) + (1 + 1 / t) * bt\<^sup>2)"
    using e by (intro sum_mono) simp
  also have "\<dots> = (1 + t) * (H\<^sup>2 * (\<Sum>i<d. (A i)\<^sup>2)) + real d * ((1 + 1 / t) * bt\<^sup>2)"
  proof -
    have "(\<Sum>i<d. (1 + t) * (H\<^sup>2 * (A i)\<^sup>2)) = (1 + t) * (H\<^sup>2 * (\<Sum>i<d. (A i)\<^sup>2))"
      by (simp only: sum_distrib_left)
    moreover have "(\<Sum>i<d. (1 + 1 / t) * bt\<^sup>2) = real d * ((1 + 1 / t) * bt\<^sup>2)" by simp
    ultimately show ?thesis by (simp only: sum.distrib)
  qed
  finally show "(\<Sum>i<d. (X i)\<^sup>2) \<le> (1 + t) * (H\<^sup>2 * (\<Sum>i<d. (A i)\<^sup>2)) + real d * ((1 + 1 / t) * bt\<^sup>2)" .
  have "(\<Sum>i<d. (1 - t) * (L\<^sup>2 * (A i)\<^sup>2) - bt\<^sup>2 / t) \<le> (\<Sum>i<d. (X i)\<^sup>2)"
    using e by (intro sum_mono) simp
  moreover have "(\<Sum>i<d. (1 - t) * (L\<^sup>2 * (A i)\<^sup>2) - bt\<^sup>2 / t)
      = (1 - t) * (L\<^sup>2 * (\<Sum>i<d. (A i)\<^sup>2)) - real d * (bt\<^sup>2 / t)"
  proof -
    have "(\<Sum>i<d. (1 - t) * (L\<^sup>2 * (A i)\<^sup>2)) = (1 - t) * (L\<^sup>2 * (\<Sum>i<d. (A i)\<^sup>2))"
      by (simp only: sum_distrib_left)
    moreover have "(\<Sum>i<d. bt\<^sup>2 / t) = real d * (bt\<^sup>2 / t)" by simp
    ultimately show ?thesis by (simp only: sum_subtractf)
  qed
  ultimately show "(1 - t) * (L\<^sup>2 * (\<Sum>i<d. (A i)\<^sup>2)) - real d * (bt\<^sup>2 / t) \<le> (\<Sum>i<d. (X i)\<^sup>2)"
    by (simp only:)
qed

lemma half_numbers_hi:
  "(1 + 1 / 2 ^ 16) * (((1 + 1 / 2 ^ 11) * (1 + 1 / 2 ^ 53) * (1 + 1 / 2 ^ 11))\<^sup>2 * (1 / (1 - 1 / 2 ^ 32)))
     + 2 ^ 14 * ((1 + 1 / (1 / 2 ^ 16)) * (1 / 2 ^ 23)\<^sup>2) \<le> ((1001 :: real) / 1000)\<^sup>2"
  by (simp add: power2_eq_square)

lemma half_numbers_lo:
  "((999 :: real) / 1000)\<^sup>2
     \<le> (1 - 1 / 2 ^ 16) * (((1 - 1 / 2 ^ 11) * (1 - 1 / 2 ^ 53) * (1 - 1 / 2 ^ 11))\<^sup>2 * (1 / (1 + 1 / 2 ^ 31)))
        - 2 ^ 14 * ((1 / 2 ^ 23)\<^sup>2 / (1 / 2 ^ 16))"
  by (simp add: power2_eq_square)

text \<open>
  For a format of at least 11 bits of precision a normalized vector has unit norm when
  one of its draws is at least half of \<^verbatim>\<open>RAND_MAX\<close>.
\<close>

lemma divisor_lower:
  fixes s :: real
  assumes s0: "0 < s" and r: "Q / s\<^sup>2 \<le> 1 / (1 - 1 / 2 ^ 32)"
    and Qlo: "((1 - 1 / 2 ^ 53) / 2)\<^sup>2 \<le> Q"
  shows "31 / 64 \<le> s"
proof -
  have s2pos: "0 < s\<^sup>2" using s0 by simp
  have Qs: "(1 - 1 / 2 ^ 32) * Q \<le> s\<^sup>2"
  proof -
    have "Q / s\<^sup>2 * s\<^sup>2 \<le> 1 / (1 - 1 / 2 ^ 32) * s\<^sup>2"
      using r s2pos by (intro mult_right_mono) simp_all
    then have "Q \<le> 1 / (1 - 1 / 2 ^ 32) * s\<^sup>2" using s2pos by simp
    then have "(1 - 1 / 2 ^ 32) * Q \<le> (1 - 1 / 2 ^ 32) * (1 / (1 - 1 / 2 ^ 32) * s\<^sup>2)"
      by (intro mult_left_mono) simp_all
    then show ?thesis by simp
  qed
  have "((31::real) / 64)\<^sup>2 \<le> (1 - 1 / 2 ^ 32) * ((1 - 1 / 2 ^ 53) / 2)\<^sup>2"
    by (simp add: power2_eq_square)
  also have "\<dots> \<le> (1 - 1 / 2 ^ 32) * Q"
    using Qlo by (intro mult_left_mono) simp_all
  also have "\<dots> \<le> s\<^sup>2" by (rule Qs)
  finally have "(31 / 64)\<^sup>2 \<le> s\<^sup>2" .
  then show ?thesis using s0 by (intro power2_le_imp_le [of "31 / 64" s]) simp_all
qed

lemma normalized_unit_norm_half:
  fixes g :: "nat \<Rightarrow> nat"
  assumes fmt: "11 \<le> prec fmt" "15 \<le> emax fmt"
    and RM: "0 < RM" "RM < 2 ^ 31"
    and rnd: "\<forall>k. 0 \<le> rnd k \<and> rnd k \<le> RM"
    and d: "d \<le> 2 ^ 14"
    and big: "\<exists>i<d. RM \<le> 2 * rnd (g i)"
  shows "unit_norm (map (\<lambda>i. SF (fcast fmt (fdiv binary64 (fcast fmt (draw RM rnd (g i)))
            (fsqrt binary64 (sum_squares (map (\<lambda>i. draw RM rnd (g i)) [0..<d]))))))
          [0..<d])"
proof -
  obtain i0 where i0: "i0 < d" "RM \<le> 2 * rnd (g i0)" using big by blast
  then have "rnd (g i0) \<noteq> 0" using RM(1) by auto
  then have nz: "\<exists>i<d. rnd (g i) \<noteq> 0" using i0(1) by blast
  have d20: "d \<le> 2 ^ 20" using d by simp
  obtain V S s where dr: "\<forall>i. draw RM rnd (g i) = Fin (V i)"
      and V: "\<forall>i<d. 0 \<le> V i \<and> V i \<le> 1 \<and> (V i = 0 \<or> pow2 (- 32) \<le> V i)"
      and S: "sum_squares (map (\<lambda>i. Fin (V i)) [0..<d]) = Fin S"
      and s: "fsqrt binary64 (Fin S) = Fin s" "pow2 (- 34) \<le> s" "s \<le> pow2 11"
      and ratio_lo: "1 / (1 + 1 / 2 ^ 31) \<le> (\<Sum>i<d. (V i)\<^sup>2) / s\<^sup>2"
      and ratio_hi: "(\<Sum>i<d. (V i)\<^sup>2) / s\<^sup>2 \<le> 1 / (1 - 1 / 2 ^ 32)"
    using draws_setup [OF RM rnd d20 nz] by blast
  have s0: "0 < s" using s(2) pow2_pos [of "- 34"] by linarith
  \<comment> \<open>the divisor is at least 31/64\<close>
  have r0: "0 \<le> rnd (g i0)" "rnd (g i0) \<le> RM" using rnd by simp_all
  obtain u0 where u0: "draw RM rnd (g i0) = Fin u0" "(1 - 1 / 2 ^ 53) / 2 \<le> u0"
    using draw_half [of RM rnd "g i0"] RM r0 i0(2) by blast
  have "V i0 = u0" using dr u0(1) by simp
  then have "((1 - 1 / 2 ^ 53) / 2)\<^sup>2 \<le> (V i0)\<^sup>2" using u0(2) by (intro power_mono) simp_all
  moreover have "(V i0)\<^sup>2 \<le> (\<Sum>i\<in>{..<d}. (V i)\<^sup>2)"
    using i0(1) by (intro member_le_sum) simp_all
  ultimately have Qlo: "((1 - 1 / 2 ^ 53) / 2)\<^sup>2 \<le> (\<Sum>i<d. (V i)\<^sup>2)" by (rule order_trans)
  have s_lo: "31 / 64 \<le> s" by (rule divisor_lower [OF s0 ratio_hi Qlo])
  \<comment> \<open>the elements\<close>
  let ?L = "(1 - 1 / 2 ^ 11) * (1 - 1 / 2 ^ 53) * (1 - 1 / 2 ^ 11) :: real"
  let ?H = "(1 + 1 / 2 ^ 11) * (1 + 1 / 2 ^ 53) * (1 + 1 / 2 ^ 11) :: real"
  have "\<forall>i. \<exists>x. i < d \<longrightarrow> fcast fmt (fdiv binary64 (fcast fmt (Fin (V i))) (Fin s)) = Fin x
      \<and> 0 \<le> x \<and> ?L * (V i / s) - 1 / 2 ^ 23 \<le> x \<and> x \<le> ?H * (V i / s) + 1 / 2 ^ 23"
    using elem_mixed [OF fmt _ _ s_lo] V by blast
  then obtain X where X: "\<forall>i<d. fcast fmt (fdiv binary64 (fcast fmt (Fin (V i))) (Fin s)) = Fin (X i)
      \<and> 0 \<le> X i \<and> ?L * (V i / s) - 1 / 2 ^ 23 \<le> X i \<and> X i \<le> ?H * (V i / s) + 1 / 2 ^ 23"
    by metis
  have vec: "map (\<lambda>i. SF (fcast fmt (fdiv binary64 (fcast fmt (draw RM rnd (g i)))
            (fsqrt binary64 (sum_squares (map (\<lambda>i. draw RM rnd (g i)) [0..<d]))))))
          [0..<d] = map (\<lambda>i. SF (Fin (X i))) [0..<d]"
    unfolding dr [rule_format] S s(1) using X by (intro map_cong refl) simp
  \<comment> \<open>the squares\<close>
  define R where "R = (\<Sum>i<d. (V i / s)\<^sup>2)"
  define N where "N = (\<Sum>i<d. (X i)\<^sup>2)"
  have el: "\<forall>i<d. 0 \<le> X i \<and> 0 \<le> V i / s \<and> ?L * (V i / s) - 1 / 2 ^ 23 \<le> X i
      \<and> X i \<le> ?H * (V i / s) + 1 / 2 ^ 23"
    using X V s0 by simp
  have c: "0 \<le> ?L" "0 \<le> ?H" "(0::real) \<le> 1 / 2 ^ 23" "(0::real) < 1 / 2 ^ 16" "(1::real) / 2 ^ 16 \<le> 1"
    by simp_all
  note nb = norm_sq_bounds [OF el c, folded R_def N_def]
  have "R = (\<Sum>i<d. (V i)\<^sup>2) / s\<^sup>2"
    by (simp add: R_def power_divide sum_divide_distrib)
  then have rl: "1 / (1 + 1 / 2 ^ 31) \<le> R" and rh: "R \<le> 1 / (1 - 1 / 2 ^ 32)"
    using ratio_lo ratio_hi by simp_all
  have dr14: "real d \<le> 2 ^ 14" using d by (metis of_nat_le_iff of_nat_numeral of_nat_power)
  have "N \<le> (1 + 1 / 2 ^ 16) * (?H\<^sup>2 * R) + real d * ((1 + 1 / (1 / 2 ^ 16)) * (1 / 2 ^ 23)\<^sup>2)"
    by (rule nb(2))
  also have "\<dots> \<le> (1 + 1 / 2 ^ 16) * (?H\<^sup>2 * (1 / (1 - 1 / 2 ^ 32)))
      + 2 ^ 14 * ((1 + 1 / (1 / 2 ^ 16)) * (1 / 2 ^ 23)\<^sup>2)"
    by (intro add_mono mult_left_mono mult_right_mono rh dr14) simp_all
  also have "\<dots> \<le> (1001 / 1000)\<^sup>2" by (rule half_numbers_hi)
  finally have Nhi: "N \<le> (1001 / 1000)\<^sup>2" .
  have "(999 / 1000)\<^sup>2 \<le> (1 - 1 / 2 ^ 16) * (?L\<^sup>2 * (1 / (1 + 1 / 2 ^ 31)))
      - 2 ^ 14 * ((1 / 2 ^ 23)\<^sup>2 / (1 / 2 ^ 16))" by (rule half_numbers_lo)
  also have "\<dots> \<le> (1 - 1 / 2 ^ 16) * (?L\<^sup>2 * R) - real d * ((1 / 2 ^ 23)\<^sup>2 / (1 / 2 ^ 16))"
    by (intro diff_mono mult_left_mono mult_right_mono rl dr14) simp_all
  also have "\<dots> \<le> N" by (rule nb(1))
  finally have Nlo: "(999 / 1000)\<^sup>2 \<le> N" .
  show ?thesis unfolding vec using Nlo Nhi unfolding N_def by (rule unit_norm_of_squares)
qed

text \<open>
  The degenerate cases: all draws 0, where every element is \<open>0 / 0\<close>; and all draws
  rounded to 0 by the first cast while one of them is not 0, where every element is 0.
\<close>

lemma sum_squares_zeros: "sum_squares (replicate n (Fin 0)) = Fin 0"
proof (induction n)
  case 0
  show ?case by (simp add: sum_squares_def)
next
  case (Suc n)
  have "replicate (Suc n) (Fin 0 :: fp) = replicate n (Fin 0) @ [Fin 0]"
    by (simp add: replicate_append_same)
  then show ?case using Suc by (simp only: sum_squares_snoc) simp
qed

lemma zero_draws_nan:
  fixes g :: "nat \<Rightarrow> nat"
  assumes RM: "0 < RM" "RM < 2 ^ 31" and z: "\<forall>i<d. rnd (g i) = 0"
  shows "map (\<lambda>i. SF (fcast fmt (fdiv binary64 (fcast fmt (draw RM rnd (g i)))
            (fsqrt binary64 (sum_squares (map (\<lambda>i. draw RM rnd (g i)) [0..<d]))))))
          [0..<d] = replicate d (SF NaN)"
proof -
  have m0: "double_of_int RM = Fin (of_int RM)"
    using RM by (intro double_of_int_exact) simp_all
  have dr: "draw RM rnd (g i) = Fin 0" if "i < d" for i
    using z that RM(1) by (simp add: draw_def m0) (simp add: double_of_int_def)
  have m: "map (\<lambda>i. draw RM rnd (g i)) [0..<d] = replicate d (Fin 0)"
  proof -
    have "map (\<lambda>i. draw RM rnd (g i)) [0..<d] = map (\<lambda>i. Fin 0) [0..<d]"
      using dr by (intro map_cong refl) simp
    then show ?thesis by (simp add: map_replicate_const)
  qed
  have "map (\<lambda>i. SF (fcast fmt (fdiv binary64 (fcast fmt (draw RM rnd (g i)))
            (fsqrt binary64 (sum_squares (map (\<lambda>i. draw RM rnd (g i)) [0..<d]))))))
          [0..<d] = map (\<lambda>i. SF NaN) [0..<d]"
    unfolding m sum_squares_zeros using dr by (intro map_cong refl) simp
  then show ?thesis by (simp add: map_replicate_const)
qed

lemma flushed_vector:
  fixes g :: "nat \<Rightarrow> nat"
  assumes RM: "0 < RM" "RM < 2 ^ 31"
    and rnd: "\<forall>k. 0 \<le> rnd k \<and> rnd k \<le> RM"
    and d: "d \<le> 2 ^ 20"
    and nz: "\<exists>i<d. rnd (g i) \<noteq> 0"
    and fl: "\<forall>i<d. fcast fmt (draw RM rnd (g i)) = Fin 0"
  shows "map (\<lambda>i. SF (fcast fmt (fdiv binary64 (fcast fmt (draw RM rnd (g i)))
            (fsqrt binary64 (sum_squares (map (\<lambda>i. draw RM rnd (g i)) [0..<d]))))))
          [0..<d] = replicate d (SF (Fin 0))"
proof -
  obtain V S s where dr: "\<forall>i. draw RM rnd (g i) = Fin (V i)"
      and S: "sum_squares (map (\<lambda>i. Fin (V i)) [0..<d]) = Fin S"
      and s: "fsqrt binary64 (Fin S) = Fin s" "pow2 (- 34) \<le> s"
    using draws_setup [OF RM rnd d nz] by blast
  have s0: "s \<noteq> 0" using s(2) pow2_pos [of "- 34"] by linarith
  have sq: "fsqrt binary64 (sum_squares (map (\<lambda>i. draw RM rnd (g i)) [0..<d])) = Fin s"
    unfolding dr [rule_format] S by (rule s(1))
  have "map (\<lambda>i. SF (fcast fmt (fdiv binary64 (fcast fmt (draw RM rnd (g i)))
            (fsqrt binary64 (sum_squares (map (\<lambda>i. draw RM rnd (g i)) [0..<d]))))))
          [0..<d] = map (\<lambda>i. SF (Fin 0)) [0..<d]"
    unfolding sq using fl s0 by (intro map_cong refl) simp
  then show ?thesis by (simp add: map_replicate_const)
qed

section \<open>The shape of a run of the measurement routine\<close>

lemma call_contender_eq:
  "call_contender metric d pair x =
     (folded (results_of metric d pair (world x)),
      \<lparr>world = snd (metric (world x) (a pair) (b pair) (dimensions d) (Fin 0, Fin 0)),
       calls = calls x @ [Invoked Contender (Fin 0, Fin 0)]\<rparr>)"
  by (simp add: call_contender_def Let_def folded_def results_of_def simsimd_distance_t_def)

lemma call_baseline_eq:
  "call_baseline baseline d pair x =
     (folded (results_of baseline d pair (world x)),
      \<lparr>world = snd (baseline (world x) (a pair) (b pair) (dimensions d) (Fin 0, Fin 0)),
       calls = calls x @ [Invoked Baseline (Fin 0, Fin 0)]\<rparr>)"
  by (simp add: call_baseline_def Let_def folded_def results_of_def simsimd_distance_t_def)

lemma timed_loop_eq:
  "timed_loop n metric d pair (c, it, x) =
     (if n = 0 then c
      else folded (results_of metric d pair (world_after metric d pair (n - 1) (world x))),
      it + of_nat n,
      \<lparr>world = world_after metric d pair n (world x),
       calls = calls x @ concat (replicate n [Iteration, Invoked Contender (Fin 0, Fin 0)])\<rparr>)"
proof (induction n arbitrary: c it x)
  case 0
  show ?case by simp
next
  case (Suc n)
  define c1 where "c1 = folded (results_of metric d pair (world x))"
  define x1 where "x1 = \<lparr>world = snd (metric (world x) (a pair) (b pair) (dimensions d) (Fin 0, Fin 0)),
       calls = (calls x @ [Iteration]) @ [Invoked Contender (Fin 0, Fin 0)]\<rparr>"
  have step: "timed_loop (Suc n) metric d pair (c, it, x) = timed_loop n metric d pair (c1, it + 1, x1)"
    by (simp add: call_contender_eq Let_def c1_def x1_def)
  have w: "world_after metric d pair n (world x1) = world_after metric d pair (Suc n) (world x)"
    by (simp add: x1_def)
  have c: "(if n = 0 then c1
        else folded (results_of metric d pair (world_after metric d pair (n - 1) (world x1))))
      = folded (results_of metric d pair (world_after metric d pair n (world x)))"
    by (cases n) (simp_all add: c1_def x1_def)
  show ?case
    unfolding step Suc.IH [of c1 "it + 1" x1] c w
    by (simp add: x1_def)
qed

lemma measure_bm_counters:
  "counters (fst (measure_bm T d k RM rnd st metric baseline x)) =
     (let c = c_of T d RM rnd st metric baseline x;
          c_baseline = c_baseline_of T d RM rnd baseline x;
          delta = (if fgt (fabs (fsub binary64 c c_baseline)) (fround binary64 (1 / 10000))
                   then fabs (fsub binary64 c c_baseline) else Fin 0)
      in (counters st)
        (''bytes'' \<mapsto> \<lparr>cvalue = double_of_size (of_nat (max_iterations st) * size_bytes T d * 2),
                         cflags = kIsRate\<rparr>,
         ''pairs'' \<mapsto> \<lparr>cvalue = double_of_size (of_nat (max_iterations st)), cflags = kIsRate\<rparr>,
         ''abs_delta'' \<mapsto> \<lparr>cvalue = delta, cflags = kDefaults\<rparr>,
         ''relative_error'' \<mapsto>
            \<lparr>cvalue = (if fne delta (Fin 0) \<and> fne c_baseline (Fin 0)
                       then fdiv binary64 delta c_baseline else Fin 0),
             cflags = kDefaults\<rparr>))"
proof -
  obtain cb xb where rb: "call_baseline baseline d (randomize T d RM rnd) x = (cb, xb)"
    by (cases "call_baseline baseline d (randomize T d RM rnd) x")
  show ?thesis
    unfolding measure_bm_def c_of_def c_baseline_of_def Let_def rb
    by (simp add: timed_loop_eq)
qed

lemma abs_delta_of_eq:
  "abs_delta_of (measure_bm T d k RM rnd st metric baseline x) =
     (let c = c_of T d RM rnd st metric baseline x;
          c_baseline = c_baseline_of T d RM rnd baseline x
      in if fgt (fabs (fsub binary64 c c_baseline)) (fround binary64 (1 / 10000))
         then fabs (fsub binary64 c c_baseline) else Fin 0)"
  by (simp add: abs_delta_of_def measure_bm_counters Let_def)

lemma c_baseline_of_eq:
  "c_baseline_of T d RM rnd baseline x =
     folded (results_of baseline d (randomize T d RM rnd) (world x))"
  by (simp add: c_baseline_of_def call_baseline_eq)

lemma c_of_eq:
  "c_of T d RM rnd st metric baseline x =
     (if max_iterations st = 0 then Fin 0
      else folded (results_of metric d (randomize T d RM rnd)
             (world_after metric d (randomize T d RM rnd) (max_iterations st - 1)
                (snd (baseline (world x) (a (randomize T d RM rnd)) (b (randomize T d RM rnd))
                        (dimensions d) (Fin 0, Fin 0))))))"
  by (simp add: c_of_def Let_def call_baseline_eq timed_loop_eq)

lemma measure_bm_calls:
  "calls (snd (measure_bm T d k RM rnd st metric baseline x)) =
     calls x @ Invoked Baseline (Fin 0, Fin 0)
       # concat (replicate (max_iterations st) [Iteration, Invoked Contender (Fin 0, Fin 0)])"
  by (simp add: measure_bm_def Let_def call_baseline_eq timed_loop_eq)

lemmas eval_simps = measure_bm_counters c_of_eq c_baseline_of_eq folded_def results_of_def
  kernel_const_def kernel_untouched_def kernel_counting_def run0_def exec0_def f32_vals tol_value
  fgt_def abs_delta_of_def relative_error_of_def Let_def spec_relative_error_def
  spec_absolute_delta_def

lemma size_bytes_f32_1536: "unat (size_bytes (FloatT binary32) 1536) = 6144"
  by (simp add: size_bytes_def binary32_def ilog2.simps)

lemma to_string_1536: "to_string 1536 = ''1536''"
  by (simp add: to_string.simps)

section \<open>Properties of the input generator\<close>

text \<open>
  C4, as the code has it. For a floating-point scalar type, with \<^verbatim>\<open>rand()\<close> delivering
  integers from 0 to \<^verbatim>\<open>RAND_MAX\<close>: each element is drawn as
  \<^verbatim>\<open>double(rand()) / double(RAND_MAX)\<close>, a value of the closed interval from 0 to 1 (1
  included); the running sum of squares of a vector is taken over its own draws, as
  doubles; the draw is cast to the scalar type when it is stored, during the filling;
  after the filling each stored element is divided by the square root of its own
  vector's sum of squares and the quotient is cast to the scalar type again. The vector
  \<open>a\<close> gets the draws of even rank, \<open>b\<close> those of odd rank.
\<close>

theorem randomize_floating_structure:
  assumes "0 < RM" "RM < 2 ^ 53" "\<forall>k. 0 \<le> rnd k \<and> rnd k \<le> RM"
  shows "randomize (FloatT fmt) d RM rnd =
     \<lparr>a = map (\<lambda>i. SF (fcast fmt (fdiv binary64 (fcast fmt (draw RM rnd (2 * i)))
                (fsqrt binary64 (sum_squares (map (\<lambda>i. draw RM rnd (2 * i)) [0..<d]))))))
            [0..<d],
      b = map (\<lambda>i. SF (fcast fmt (fdiv binary64 (fcast fmt (draw RM rnd (2 * i + 1)))
                (fsqrt binary64 (sum_squares (map (\<lambda>i. draw RM rnd (2 * i + 1)) [0..<d]))))))
            [0..<d]\<rparr>
   \<and> (\<forall>k. \<exists>u. draw RM rnd k = Fin u \<and> 0 \<le> u \<and> u \<le> 1)"
  using assms draw_unit [of RM rnd] by (simp add: randomize_floating)

text \<open>
  With \<^verbatim>\<open>rand()\<close> at \<^verbatim>\<open>RAND_MAX\<close> for ever and four dimensions: every draw is 1, each
  sum of squares is 4, every element is \<open>1/2\<close>.
\<close>

theorem randomize_floating_structure_witness:
  "(0::int) < 32767 \<and> (32767::int) < 2 ^ 53
   \<and> (\<forall>k. 0 \<le> rand_const 32767 k \<and> rand_const 32767 k \<le> 32767)
   \<and> randomize (FloatT binary32) 4 32767 (rand_const 32767) =
       \<lparr>a = [SF (Fin (1 / 2)), SF (Fin (1 / 2)), SF (Fin (1 / 2)), SF (Fin (1 / 2))],
        b = [SF (Fin (1 / 2)), SF (Fin (1 / 2)), SF (Fin (1 / 2)), SF (Fin (1 / 2))]\<rparr>"
proof -
  have h: "\<forall>k. 0 \<le> rand_const 32767 k \<and> rand_const 32767 k \<le> 32767"
    by (simp add: rand_const_def)
  have v: "fround binary64 1 = Fin 1" "fround binary32 1 = Fin 1" "fround binary64 2 = Fin 2"
    "fround binary64 3 = Fin 3" "fround binary64 4 = Fin 4"
    "fround binary64 (1 / 2) = Fin (1 / 2)" "fround binary32 (1 / 2) = Fin (1 / 2)"
    by (simp_all add: fround_def ilog2.simps binary64_def binary32_def pow2_def rne_def Let_def)
  have s: "sqrt 4 = 2" by simp
  have u: "[0..<4] = [0, 1, 2, 3]" by (simp add: upt_rec)
  show ?thesis
    using randomize_floating_structure [of 32767 "rand_const 32767" binary32 4] h
    by (simp add: draw_max' sum_squares_def v s u)
qed

text \<open>
  Against C4 as stated: when \<^verbatim>\<open>rand()\<close> returns \<^verbatim>\<open>RAND_MAX\<close> (here \<open>2^31 - 1\<close>) the
  element drawn is 1, which is not below 1, and is stored as 1.
\<close>

theorem draw_reaches_one_counterexample:
  "draw 2147483647 (rand_const 2147483647) 0 = Fin 1
   \<and> \<not> flt (draw 2147483647 (rand_const 2147483647) 0) (Fin 1)
   \<and> a (randomize (FloatT binary32) 1 2147483647 (rand_const 2147483647)) = [SF (Fin 1)]"
proof -
  have v: "fround binary64 1 = Fin 1" "fround binary32 1 = Fin 1"
    by (simp_all add: fround_def ilog2.simps binary64_def binary32_def pow2_def rne_def Let_def)
  show ?thesis
    by (simp add: randomize_floating draw_max sum_squares_def v)
qed

text \<open>
  C5, as the code has it. With \<^verbatim>\<open>RAND_MAX\<close> positive and below \<open>2\<^sup>3\<^sup>1\<close> and \<^verbatim>\<open>rand()\<close>
  delivering integers from 0 to \<^verbatim>\<open>RAND_MAX\<close>, for a floating-point scalar type: after
  \<^verbatim>\<open>randomize()\<close> all elements of a vector are finite and its L2 norm is within \<open>1/1000\<close>
  of 1 in each of two cases. Either the type has at least 24 bits of precision and a
  largest exponent of at least 127 (\<^verbatim>\<open>float\<close>, \<^verbatim>\<open>double\<close>), there are at most \<open>2\<^sup>2\<^sup>0\<close>
  dimensions and one of the draws of the vector is not 0. Or the type has at least 11
  bits of precision and a largest exponent of at least 15 (the 16-bit float too), there
  are at most \<open>2\<^sup>1\<^sup>4\<close> dimensions and one of the draws of the vector is at least half of
  \<^verbatim>\<open>RAND_MAX\<close>. When all draws of a vector are 0, all its elements are \<open>0 / 0\<close>, not a
  number. For an integral scalar type nothing is normalized: the vectors hold the results
  of \<^verbatim>\<open>rand()\<close> converted to the type. The vector \<open>a\<close> has the draws of even rank, \<open>b\<close>
  those of odd rank.
\<close>

theorem randomize_unit_norm:
  assumes "0 < RM" "RM < 2 ^ 31" "\<forall>k. 0 \<le> rnd k \<and> rnd k \<le> RM"
  shows "(24 \<le> prec fmt \<and> 127 \<le> emax fmt \<and> d \<le> 2 ^ 20 \<and> (\<exists>i<d. rnd (2 * i) \<noteq> 0)
          \<or> 11 \<le> prec fmt \<and> 15 \<le> emax fmt \<and> d \<le> 2 ^ 14 \<and> (\<exists>i<d. RM \<le> 2 * rnd (2 * i))
        \<longrightarrow> unit_norm (a (randomize (FloatT fmt) d RM rnd)))
     \<and> (24 \<le> prec fmt \<and> 127 \<le> emax fmt \<and> d \<le> 2 ^ 20 \<and> (\<exists>i<d. rnd (2 * i + 1) \<noteq> 0)
          \<or> 11 \<le> prec fmt \<and> 15 \<le> emax fmt \<and> d \<le> 2 ^ 14 \<and> (\<exists>i<d. RM \<le> 2 * rnd (2 * i + 1))
        \<longrightarrow> unit_norm (b (randomize (FloatT fmt) d RM rnd)))
     \<and> ((\<forall>i<d. rnd (2 * i) = 0)
        \<longrightarrow> a (randomize (FloatT fmt) d RM rnd) = replicate d (SF NaN))
     \<and> ((\<forall>i<d. rnd (2 * i + 1) = 0)
        \<longrightarrow> b (randomize (FloatT fmt) d RM rnd) = replicate d (SF NaN))
     \<and> randomize (IntT w sg) d RM rnd =
         \<lparr>a = map (\<lambda>i. SI (wrap_int w sg (rnd (2 * i)))) [0..<d],
          b = map (\<lambda>i. SI (wrap_int w sg (rnd (2 * i + 1)))) [0..<d]\<rparr>"
proof -
  note w = normalized_unit_norm [OF _ _ assms, of fmt d]
  note h = normalized_unit_norm_half [OF _ _ assms, of fmt d]
  note z = zero_draws_nan [OF assms(1,2), of d rnd _ fmt]
  have "unit_norm (a (randomize (FloatT fmt) d RM rnd))"
    if "24 \<le> prec fmt \<and> 127 \<le> emax fmt \<and> d \<le> 2 ^ 20 \<and> (\<exists>i<d. rnd (2 * i) \<noteq> 0)
          \<or> 11 \<le> prec fmt \<and> 15 \<le> emax fmt \<and> d \<le> 2 ^ 14 \<and> (\<exists>i<d. RM \<le> 2 * rnd (2 * i))"
    using that w [of "\<lambda>i. 2 * i"] h [of "\<lambda>i. 2 * i"] by (auto simp add: randomize_floating)
  moreover have "unit_norm (b (randomize (FloatT fmt) d RM rnd))"
    if "24 \<le> prec fmt \<and> 127 \<le> emax fmt \<and> d \<le> 2 ^ 20 \<and> (\<exists>i<d. rnd (2 * i + 1) \<noteq> 0)
          \<or> 11 \<le> prec fmt \<and> 15 \<le> emax fmt \<and> d \<le> 2 ^ 14 \<and> (\<exists>i<d. RM \<le> 2 * rnd (2 * i + 1))"
    using that w [of "\<lambda>i. 2 * i + 1"] h [of "\<lambda>i. 2 * i + 1"] by (auto simp add: randomize_floating)
  moreover have "a (randomize (FloatT fmt) d RM rnd) = replicate d (SF NaN)"
    if "\<forall>i<d. rnd (2 * i) = 0"
    using that z [of "\<lambda>i. 2 * i"] by (simp add: randomize_floating)
  moreover have "b (randomize (FloatT fmt) d RM rnd) = replicate d (SF NaN)"
    if "\<forall>i<d. rnd (2 * i + 1) = 0"
    using that z [of "\<lambda>i. 2 * i + 1"] by (simp add: randomize_floating)
  ultimately show ?thesis by (simp add: randomize_integral)
qed

text \<open>
  With \<^verbatim>\<open>RAND_MAX\<close> at 32767. For the 16-bit float, four dimensions and \<^verbatim>\<open>rand()\<close> at
  \<^verbatim>\<open>RAND_MAX\<close> for ever: both vectors have unit norm. For \<^verbatim>\<open>float\<close>, four dimensions
  and \<^verbatim>\<open>rand()\<close> at 1 for ever: both vectors have unit norm. For \<^verbatim>\<open>double\<close>, three
  dimensions and \<^verbatim>\<open>rand()\<close> at 0 for ever: all elements are not a number. For a signed
  type of 8 bits the elements are \<open>32767\<close> wrapped to \<open>-1\<close>.
\<close>

theorem randomize_unit_norm_witness:
  "(0::int) < 32767 \<and> (32767::int) < 2 ^ 31
   \<and> (\<forall>k. 0 \<le> rand_const 32767 k \<and> rand_const 32767 k \<le> 32767)
   \<and> (\<forall>k. 0 \<le> rand_const 1 k \<and> rand_const 1 k \<le> 32767)
   \<and> (\<forall>k. 0 \<le> rand_const 0 k \<and> rand_const 0 k \<le> 32767)
   \<and> 11 \<le> prec binary16 \<and> 15 \<le> emax binary16 \<and> (4::nat) \<le> 2 ^ 14
   \<and> (\<exists>i<4. 32767 \<le> 2 * rand_const 32767 (2 * i))
   \<and> (\<exists>i<4. 32767 \<le> 2 * rand_const 32767 (2 * i + 1))
   \<and> unit_norm (a (randomize (FloatT binary16) 4 32767 (rand_const 32767)))
   \<and> unit_norm (b (randomize (FloatT binary16) 4 32767 (rand_const 32767)))
   \<and> 24 \<le> prec binary32 \<and> 127 \<le> emax binary32 \<and> (4::nat) \<le> 2 ^ 20
   \<and> (\<exists>i<4. rand_const 1 (2 * i) \<noteq> 0) \<and> (\<exists>i<4. rand_const 1 (2 * i + 1) \<noteq> 0)
   \<and> unit_norm (a (randomize (FloatT binary32) 4 32767 (rand_const 1)))
   \<and> unit_norm (b (randomize (FloatT binary32) 4 32767 (rand_const 1)))
   \<and> (\<forall>k. rand_const 0 k = 0)
   \<and> a (randomize (FloatT binary64) 3 32767 (rand_const 0)) = [SF NaN, SF NaN, SF NaN]
   \<and> b (randomize (FloatT binary64) 3 32767 (rand_const 0)) = [SF NaN, SF NaN, SF NaN]
   \<and> randomize (IntT 8 True) 4 32767 (rand_const 32767) =
       \<lparr>a = [SI (- 1), SI (- 1), SI (- 1), SI (- 1)],
        b = [SI (- 1), SI (- 1), SI (- 1), SI (- 1)]\<rparr>"
proof -
  have r: "(0::int) < 32767" "(32767::int) < 2 ^ 31" by simp_all
  have h1: "\<forall>k. 0 \<le> rand_const 32767 k \<and> rand_const 32767 k \<le> 32767"
    and h2: "\<forall>k. 0 \<le> rand_const 1 k \<and> rand_const 1 k \<le> 32767"
    and h3: "\<forall>k. 0 \<le> rand_const 0 k \<and> rand_const 0 k \<le> 32767"
    by (simp_all add: rand_const_def)
  have f: "11 \<le> prec binary16" "15 \<le> emax binary16" "24 \<le> prec binary32" "127 \<le> emax binary32"
    by (simp_all add: binary16_def binary32_def)
  have e: "\<exists>i<4. 32767 \<le> 2 * rand_const 32767 (2 * i)"
      "\<exists>i<4. 32767 \<le> 2 * rand_const 32767 (2 * i + 1)"
      "\<exists>i<4. rand_const 1 (2 * i) \<noteq> 0" "\<exists>i<4. rand_const 1 (2 * i + 1) \<noteq> 0"
    by (simp_all add: rand_const_def) (rule exI [of _ 0], simp)+
  have z: "\<forall>k. rand_const 0 k = 0" by (simp add: rand_const_def)
  have w: "wrap_int 8 True 32767 = - 1" by (simp add: wrap_int_def)
  have u: "[0..<4] = [0, 1, 2, 3]" by (simp add: upt_rec)
  have n: "replicate 3 (SF NaN) = [SF NaN, SF NaN, SF NaN]" by (simp add: numeral_3_eq_3)
  note t1 = randomize_unit_norm [OF r h1, where fmt = binary16 and d = 4 and w = 8 and sg = True]
  note t2 = randomize_unit_norm [OF r h2, where fmt = binary32 and d = 4]
  note t3 = randomize_unit_norm [OF r h3, where fmt = binary64 and d = 3]
  have c1: "unit_norm (a (randomize (FloatT binary16) 4 32767 (rand_const 32767)))"
      "unit_norm (b (randomize (FloatT binary16) 4 32767 (rand_const 32767)))"
    using t1 f e by simp_all
  have c2: "unit_norm (a (randomize (FloatT binary32) 4 32767 (rand_const 1)))"
      "unit_norm (b (randomize (FloatT binary32) 4 32767 (rand_const 1)))"
    using t2 f e by simp_all
  have c3: "a (randomize (FloatT binary64) 3 32767 (rand_const 0)) = [SF NaN, SF NaN, SF NaN]"
      "b (randomize (FloatT binary64) 3 32767 (rand_const 0)) = [SF NaN, SF NaN, SF NaN]"
  proof -
    have z1: "\<forall>i<3. rand_const 0 (2 * i) = 0" "\<forall>i<3. rand_const 0 (2 * i + 1) = 0"
      by (simp_all add: rand_const_def)
    have "a (randomize (FloatT binary64) 3 32767 (rand_const 0)) = replicate 3 (SF NaN)"
      using t3 z1(1) by blast
    then show "a (randomize (FloatT binary64) 3 32767 (rand_const 0)) = [SF NaN, SF NaN, SF NaN]"
      by (simp only: n)
    have "b (randomize (FloatT binary64) 3 32767 (rand_const 0)) = replicate 3 (SF NaN)"
      using t3 z1(2) by blast
    then show "b (randomize (FloatT binary64) 3 32767 (rand_const 0)) = [SF NaN, SF NaN, SF NaN]"
      by (simp only: n)
  qed
  have c4: "randomize (IntT 8 True) 4 32767 (rand_const 32767) =
       \<lparr>a = [SI (- 1), SI (- 1), SI (- 1), SI (- 1)],
        b = [SI (- 1), SI (- 1), SI (- 1), SI (- 1)]\<rparr>"
  proof -
    have "randomize (IntT 8 True) 4 32767 (rand_const 32767) =
         \<lparr>a = map (\<lambda>i. SI (wrap_int 8 True (rand_const 32767 (2 * i)))) [0..<4],
          b = map (\<lambda>i. SI (wrap_int 8 True (rand_const 32767 (2 * i + 1)))) [0..<4]\<rparr>"
      using t1 by blast
    then show ?thesis by (simp add: u w rand_const_def)
  qed
  show ?thesis using r h1 h2 h3 f e z c1 c2 c3 c4 by simp
qed

text \<open>
  Against C5 as stated, two runs. For \<^verbatim>\<open>float\<close>, when \<^verbatim>\<open>rand()\<close> returns 0 for every
  draw, each sum of squares is 0 and every element is \<open>0 / 0\<close>, not a number. For the
  16-bit float with \<^verbatim>\<open>RAND_MAX\<close> at \<open>2\<^sup>3\<^sup>1 - 1\<close>, when \<^verbatim>\<open>rand()\<close> returns 1 for every
  draw, each draw is \<open>(2\<^sup>3\<^sup>1 + 1) / 2\<^sup>6\<^sup>2\<close>, not 0, the first cast stores it as 0 and every
  element is 0 after the division. In neither run has a vector a norm near 1.
\<close>

theorem degenerate_draws_counterexample:
  "randomize (FloatT binary32) 2 32767 (rand_const 0) =
     \<lparr>a = [SF NaN, SF NaN], b = [SF NaN, SF NaN]\<rparr>
   \<and> \<not> unit_norm (a (randomize (FloatT binary32) 2 32767 (rand_const 0)))
   \<and> \<not> unit_norm (b (randomize (FloatT binary32) 2 32767 (rand_const 0)))
   \<and> draw 2147483647 (rand_const 1) 0 = Fin (2147483649 / 2 ^ 62)
   \<and> randomize (FloatT binary16) 2 2147483647 (rand_const 1) =
     \<lparr>a = [SF (Fin 0), SF (Fin 0)], b = [SF (Fin 0), SF (Fin 0)]\<rparr>
   \<and> \<not> unit_norm (a (randomize (FloatT binary16) 2 2147483647 (rand_const 1)))
   \<and> \<not> unit_norm (b (randomize (FloatT binary16) 2 2147483647 (rand_const 1)))"
proof -
  have d: "draw 32767 (rand_const 0) k = Fin 0" for k
    by (simp add: draw_def rand_const_def double_of_int_def fround_def ilog2.simps binary64_def
      pow2_def rne_def Let_def)
  have u: "[0..<2] = [0, 1]" by (simp add: upt_rec)
  have r: "randomize (FloatT binary32) 2 32767 (rand_const 0) =
     \<lparr>a = [SF NaN, SF NaN], b = [SF NaN, SF NaN]\<rparr>"
    by (simp add: randomize_floating d u sum_squares_def)
  have d1: "draw 2147483647 (rand_const 1) k = Fin (2147483649 / 2 ^ 62)" for k
    by (simp add: draw_def rand_const_def double_of_int_def fround_def ilog2.simps binary64_def
      pow2_def rne_def Let_def)
  have c: "fround binary16 (2147483649 / 2 ^ 62) = Fin 0"
    by (simp add: fround_def ilog2.simps binary16_def pow2_def rne_def Let_def)
  have R: "(0::int) < 2147483647" "(2147483647::int) < 2 ^ 31"
      "\<forall>k. 0 \<le> rand_const 1 k \<and> rand_const 1 k \<le> 2147483647" "(2::nat) \<le> 2 ^ 20"
    by (simp_all add: rand_const_def)
  have nz: "\<exists>i<2. rand_const 1 (g i) \<noteq> 0" for g :: "nat \<Rightarrow> nat"
    by (rule exI [of _ 0]) (simp add: rand_const_def)
  have fl: "\<forall>i<2. fcast binary16 (draw 2147483647 (rand_const 1) (g i)) = Fin 0"
    for g :: "nat \<Rightarrow> nat"
    by (simp only: d1 fcast.simps c) simp
  have r16: "randomize (FloatT binary16) 2 2147483647 (rand_const 1) =
     \<lparr>a = [SF (Fin 0), SF (Fin 0)], b = [SF (Fin 0), SF (Fin 0)]\<rparr>"
    unfolding randomize_floating
    using flushed_vector [OF R nz fl, of "\<lambda>i. 2 * i"] flushed_vector [OF R nz fl, of "\<lambda>i. 2 * i + 1"]
    by (simp add: numeral_2_eq_2)
  show ?thesis unfolding r r16 using d1 [of 0] by (simp add: unit_norm_def l2_norm_def)
qed

section \<open>Order of the calls and the throughput counters\<close>

text \<open>
  C3. In every run of \<^verbatim>\<open>measure\<close> the calls it adds to the log are: one call of the
  baseline, on a buffer of two zeros, and then, for each of the iterations the engine
  grants, the start of the iteration followed by one call of the contender on a fresh
  buffer of two zeros; nothing else. The baseline is therefore called exactly once,
  before the first iteration and in none of them. The state the metrics share is the one
  left by the baseline and that many contender calls, and when there is an iteration the
  scalar \<^verbatim>\<open>c\<close> kept for the comparison is the folding of the buffer written by the
  contender's last call.
\<close>

theorem baseline_once_then_contender_loop:
  "(let pair = randomize T d RM rnd;
        r = measure_bm T d k RM rnd st metric baseline x;
        w1 = snd (baseline (world x) (a pair) (b pair) (dimensions d) (Fin 0, Fin 0))
    in calls (snd r) =
         calls x @ Invoked Baseline (Fin 0, Fin 0)
           # concat (replicate (max_iterations st) [Iteration, Invoked Contender (Fin 0, Fin 0)])
       \<and> world (snd r) = world_after metric d pair (max_iterations st) w1
       \<and> (0 < max_iterations st \<longrightarrow>
            c_of T d RM rnd st metric baseline x =
              folded (results_of metric d pair
                (world_after metric d pair (max_iterations st - 1) w1))))"
  unfolding Let_def
  by (simp add: measure_bm_calls c_of_eq)
     (simp add: measure_bm_def Let_def call_baseline_eq timed_loop_eq)

text \<open>
  Three iterations of a contender that writes how often it was called before, started
  at 5 (it writes 5, 6, 7): the scalar kept is 7.
\<close>

theorem baseline_once_then_contender_loop_witness:
  "0 < max_iterations (run0 3)
   \<and> calls (snd (measure_bm (IntT 8 True) 1 distance_k 32767 (rand_const 1) (run0 3)
        kernel_counting (kernel_const (Fin 10, Fin 0)) (exec0 5))) =
      [Invoked Baseline (Fin 0, Fin 0),
       Iteration, Invoked Contender (Fin 0, Fin 0),
       Iteration, Invoked Contender (Fin 0, Fin 0),
       Iteration, Invoked Contender (Fin 0, Fin 0)]
   \<and> world (snd (measure_bm (IntT 8 True) 1 distance_k 32767 (rand_const 1) (run0 3)
        kernel_counting (kernel_const (Fin 10, Fin 0)) (exec0 5))) = 8
   \<and> c_of (IntT 8 True) 1 32767 (rand_const 1) (run0 3) kernel_counting
        (kernel_const (Fin 10, Fin 0)) (exec0 5) = Fin 7"
proof -
  have v: "fround binary64 7 = Fin 7" "fround binary32 7 = Fin 7"
    by (simp_all add: fround_def ilog2.simps binary64_def binary32_def pow2_def rne_def Let_def)
  show ?thesis
    using baseline_once_then_contender_loop [of "IntT 8 True" 1 32767 "rand_const 1" distance_k
        "run0 3" kernel_counting "kernel_const (Fin 10, Fin 0)" "exec0 5"]
    by (simp add: Let_def run0_def exec0_def kernel_const_def kernel_counting_def
        eval_nat_numeral folded_def results_of_def v)
qed

text \<open>
  C7. For a run of \<open>n\<close> iterations on a pair of \<open>s\<close> bytes per vector (\<open>s\<close> is
  what \<^verbatim>\<open>size_bytes()\<close> returns), the counter \<^verbatim>\<open>bytes\<close> is \<open>n * s * 2\<close> and the counter
  \<^verbatim>\<open>pairs\<close> is \<open>n\<close>, both flagged \<^verbatim>\<open>kIsRate\<close>. The product is formed in
  \<^verbatim>\<open>std::size_t\<close> and converted to \<^verbatim>\<open>double\<close>; the statement is for the products below
  \<open>2^53\<close>, which a double holds exactly.
\<close>

theorem throughput_counters:
  assumes "max_iterations st < 2 ^ 53"
    and "max_iterations st * unat (size_bytes T d) * 2 < 2 ^ 53"
  shows "counters (fst (measure_bm T d k RM rnd st metric baseline x)) ''bytes'' =
           Some \<lparr>cvalue = Fin (real (max_iterations st * unat (size_bytes T d) * 2)),
                 cflags = kIsRate\<rparr>
       \<and> counters (fst (measure_bm T d k RM rnd st metric baseline x)) ''pairs'' =
           Some \<lparr>cvalue = Fin (real (max_iterations st)), cflags = kIsRate\<rparr>"
proof -
  have n: "unat (of_nat (max_iterations st) :: 64 word) = max_iterations st"
    using assms(1) by (simp add: unat_of_nat)
  have "double_of_size (of_nat (max_iterations st)) = Fin (real (max_iterations st))"
    unfolding double_of_size_def n by (rule fround64_nat_exact [OF assms(1)])
  moreover have "double_of_size (of_nat (max_iterations st) * size_bytes T d * 2) =
      Fin (real (max_iterations st * unat (size_bytes T d) * 2))"
    unfolding double_of_size_def unat_product [OF assms(2)]
    by (rule fround64_nat_exact [OF assms(2)])
  ultimately show ?thesis
    by (simp add: measure_bm_counters Let_def)
qed

text \<open>
  A thousand iterations on 1536 32-bit floats: 12288000 bytes, 1000 pairs.
\<close>

theorem throughput_counters_witness:
  "max_iterations (run0 1000) < 2 ^ 53
   \<and> max_iterations (run0 1000) * unat (size_bytes (FloatT binary32) 1536) * 2 < 2 ^ 53
   \<and> counters (fst (measure_bm (FloatT binary32) 1536 distance_k 32767 (rand_const 1)
         (run0 1000) kernel_untouched kernel_untouched (exec0 ()))) ''bytes'' =
       Some \<lparr>cvalue = Fin 12288000, cflags = kIsRate\<rparr>
   \<and> counters (fst (measure_bm (FloatT binary32) 1536 distance_k 32767 (rand_const 1)
         (run0 1000) kernel_untouched kernel_untouched (exec0 ()))) ''pairs'' =
       Some \<lparr>cvalue = Fin 1000, cflags = kIsRate\<rparr>"
proof -
  have n: "max_iterations (run0 1000) = 1000" by (simp add: run0_def)
  have a: "max_iterations (run0 1000) < 2 ^ 53" unfolding n by simp
  have b: "max_iterations (run0 1000) * unat (size_bytes (FloatT binary32) 1536) * 2 < 2 ^ 53"
    unfolding n size_bytes_f32_1536 by simp
  show ?thesis
    using throughput_counters [OF a b, of distance_k 32767 "rand_const 1" kernel_untouched
        kernel_untouched "exec0 ()"] a b
    unfolding n size_bytes_f32_1536 by simp
qed

section \<open>The accuracy counters\<close>

text \<open>
  C1, as the code has it. The counter \<^verbatim>\<open>relative_error\<close> is the reported
  \<^verbatim>\<open>abs_delta\<close> divided by the reference value itself, with its sign (not by its
  absolute value), when the delta and the reference both differ from 0, and is 0
  otherwise. For a reference of 0 it is exactly 0 whatever the delta; for a finite nonzero
  delta \<open>u\<close> and a finite nonzero reference \<open>v\<close> it is the double nearest \<open>u / v\<close>.
\<close>

theorem relative_error_signed:
  "(let r = measure_bm T d k RM rnd st metric baseline x;
        reference = c_baseline_of T d RM rnd baseline x
    in counters (fst r) ''relative_error'' =
         Some \<lparr>cvalue = (if fne (abs_delta_of r) (Fin 0) \<and> fne reference (Fin 0)
                          then fdiv binary64 (abs_delta_of r) reference else Fin 0),
               cflags = kDefaults\<rparr>
       \<and> (reference = Fin 0 \<longrightarrow> relative_error_of r = Fin 0)
       \<and> (\<forall>u v. abs_delta_of r = Fin u \<and> u \<noteq> 0 \<and> reference = Fin v \<and> v \<noteq> 0 \<longrightarrow>
             relative_error_of r = fround binary64 (u / v)))"
  unfolding relative_error_of_def abs_delta_of_def measure_bm_counters Let_def
  by auto

text \<open>Two runs of one iteration: reference 0 with delta 1 reports 0; reference \<open>-2\<close>
  with delta 1 reports \<open>-1/2\<close>.\<close>

theorem relative_error_signed_witness:
  "c_baseline_of (IntT 8 True) 1 32767 (rand_const 0) (kernel_const (Fin 0, Fin 0)) (exec0 ())
     = Fin 0
   \<and> abs_delta_of (measure_bm (IntT 8 True) 1 distance_k 32767 (rand_const 0) (run0 1)
        (kernel_const (Fin 1, Fin 0)) (kernel_const (Fin 0, Fin 0)) (exec0 ())) = Fin 1
   \<and> relative_error_of (measure_bm (IntT 8 True) 1 distance_k 32767 (rand_const 0) (run0 1)
        (kernel_const (Fin 1, Fin 0)) (kernel_const (Fin 0, Fin 0)) (exec0 ())) = Fin 0
   \<and> c_baseline_of (IntT 8 True) 1 32767 (rand_const 0) (kernel_const (Fin (- 2), Fin 0))
        (exec0 ()) = Fin (- 2)
   \<and> abs_delta_of (measure_bm (IntT 8 True) 1 distance_k 32767 (rand_const 0) (run0 1)
        (kernel_const (Fin (- 1), Fin 0)) (kernel_const (Fin (- 2), Fin 0)) (exec0 ())) = Fin 1
   \<and> relative_error_of (measure_bm (IntT 8 True) 1 distance_k 32767 (rand_const 0) (run0 1)
        (kernel_const (Fin (- 1), Fin 0)) (kernel_const (Fin (- 2), Fin 0)) (exec0 ()))
       = Fin (- 1 / 2)"
proof -
  have b0: "c_baseline_of (IntT 8 True) 1 32767 (rand_const 0) (kernel_const (Fin 0, Fin 0))
      (exec0 ()) = Fin 0"
    by (simp add: eval_simps)
  have b2: "c_baseline_of (IntT 8 True) 1 32767 (rand_const 0)
      (kernel_const (Fin (- 2), Fin 0)) (exec0 ()) = Fin (- 2)"
    by (simp add: eval_simps)
  have d0: "abs_delta_of (measure_bm (IntT 8 True) 1 distance_k 32767 (rand_const 0) (run0 1)
        (kernel_const (Fin 1, Fin 0)) (kernel_const (Fin 0, Fin 0)) (exec0 ())) = Fin 1"
    by (simp add: eval_simps)
  have d2: "abs_delta_of (measure_bm (IntT 8 True) 1 distance_k 32767 (rand_const 0) (run0 1)
        (kernel_const (Fin (- 1), Fin 0)) (kernel_const (Fin (- 2), Fin 0)) (exec0 ())) = Fin 1"
    by (simp add: eval_simps)
  have h: "fround binary64 (1 / - 2) = Fin (- 1 / 2)"
    by (simp add: fround_def ilog2.simps binary64_def pow2_def rne_def Let_def)
  show ?thesis
    using relative_error_signed [of "IntT 8 True" 1 distance_k 32767 "rand_const 0" "run0 1"
        "kernel_const (Fin 1, Fin 0)" "kernel_const (Fin 0, Fin 0)" "exec0 ()"]
      relative_error_signed [of "IntT 8 True" 1 distance_k 32767 "rand_const 0" "run0 1"
        "kernel_const (Fin (- 1), Fin 0)" "kernel_const (Fin (- 2), Fin 0)" "exec0 ()"]
    unfolding Let_def b0 b2 d0 d2 using h by simp
qed

text \<open>Against C1 as stated: the baseline writes \<open>-1\<close>, the contender leaves the buffer
  at 0. The delta is 1 and the reported relative error is \<open>-1\<close>, where the delta over
  the absolute value of the reference is 1.\<close>

theorem relative_error_abs_counterexample:
  "relative_error_of (measure_bm (IntT 8 True) 1 distance_k 32767 (rand_const 0) (run0 1)
       kernel_untouched (kernel_const (Fin (- 1), Fin 0)) (exec0 ())) = Fin (- 1)
   \<and> spec_relative_error
        (abs_delta_of (measure_bm (IntT 8 True) 1 distance_k 32767 (rand_const 0) (run0 1)
           kernel_untouched (kernel_const (Fin (- 1), Fin 0)) (exec0 ())))
        (c_baseline_of (IntT 8 True) 1 32767 (rand_const 0) (kernel_const (Fin (- 1), Fin 0))
           (exec0 ())) = Fin 1"
  by (simp add: eval_simps)

text \<open>
  C2, as the code has it. The counter \<^verbatim>\<open>abs_delta\<close> is the absolute difference of the
  last contender scalar and the reference value when that difference compares greater
  than the double 0.0001, and exactly 0 in every other case: a difference of at most the
  tolerance, and a difference that is a NaN. In particular two finite folded outputs that
  differ, as real numbers, by strictly less than 0.0001 report exactly 0.
\<close>

theorem abs_delta_clamped:
  "(let r = measure_bm T d k RM rnd st metric baseline x;
        c = c_of T d RM rnd st metric baseline x;
        reference = c_baseline_of T d RM rnd baseline x
    in counters (fst r) ''abs_delta'' =
         Some \<lparr>cvalue = (if fgt (fabs (fsub binary64 c reference)) (fround binary64 (1 / 10000))
                          then fabs (fsub binary64 c reference) else Fin 0),
               cflags = kDefaults\<rparr>
       \<and> (\<forall>u v. c = Fin u \<and> reference = Fin v \<and> \<bar>u - v\<bar> < 1 / 10000 \<longrightarrow>
             abs_delta_of r = Fin 0))"
proof -
  have "abs_delta_of (measure_bm T d k RM rnd st metric baseline x) = Fin 0"
    if c: "c_of T d RM rnd st metric baseline x = Fin u"
      and b: "c_baseline_of T d RM rnd baseline x = Fin v"
      and lt: "\<bar>u - v\<bar> < 1 / 10000" for u v
  proof -
    obtain y where y: "fround binary64 (u - v) = Fin y" "\<bar>y\<bar> \<le> 7378697629483821 / 2 ^ 66"
      using fround64_below_tol [OF lt] by blast
    then show ?thesis
      by (simp add: abs_delta_of_eq c b Let_def fgt_def tol_value)
  qed
  then show ?thesis
    unfolding Let_def by (simp add: measure_bm_counters Let_def)
qed

text \<open>A run whose outputs \<open>16385/32768\<close> and \<open>1/2\<close> differ by \<open>1/32768\<close>.\<close>

theorem abs_delta_clamped_witness:
  "c_of (IntT 8 True) 1 32767 (rand_const 0) (run0 1) (kernel_const (Fin (16385 / 32768), Fin 0))
      (kernel_const (Fin (1 / 2), Fin 0)) (exec0 ()) = Fin (16385 / 32768)
   \<and> c_baseline_of (IntT 8 True) 1 32767 (rand_const 0) (kernel_const (Fin (1 / 2), Fin 0))
        (exec0 ()) = Fin (1 / 2)
   \<and> \<bar>16385 / 32768 - 1 / 2 :: real\<bar> < 1 / 10000
   \<and> abs_delta_of (measure_bm (IntT 8 True) 1 distance_k 32767 (rand_const 0) (run0 1)
        (kernel_const (Fin (16385 / 32768), Fin 0)) (kernel_const (Fin (1 / 2), Fin 0))
        (exec0 ())) = Fin 0"
proof -
  have c: "c_of (IntT 8 True) 1 32767 (rand_const 0) (run0 1)
      (kernel_const (Fin (16385 / 32768), Fin 0)) (kernel_const (Fin (1 / 2), Fin 0)) (exec0 ())
      = Fin (16385 / 32768)"
    by (simp add: eval_simps)
  have b: "c_baseline_of (IntT 8 True) 1 32767 (rand_const 0)
      (kernel_const (Fin (1 / 2), Fin 0)) (exec0 ()) = Fin (1 / 2)"
    by (simp add: eval_simps)
  have lt: "\<bar>16385 / 32768 - 1 / 2 :: real\<bar> < 1 / 10000" by simp
  show ?thesis
    using abs_delta_clamped [of "IntT 8 True" 1 distance_k 32767 "rand_const 0" "run0 1"
        "kernel_const (Fin (16385 / 32768), Fin 0)" "kernel_const (Fin (1 / 2), Fin 0)"
        "exec0 ()"] c b lt
    unfolding Let_def by blast
qed

text \<open>Against C2 as stated: a contender that writes a NaN, against a baseline that
  writes 1. No comparison with a NaN holds, so the reported delta is 0, where the
  absolute difference itself is a NaN and is not below the tolerance.\<close>

theorem abs_delta_nan_counterexample:
  "abs_delta_of (measure_bm (IntT 8 True) 1 distance_k 32767 (rand_const 0) (run0 1)
       (kernel_const (NaN, Fin 0)) (kernel_const (Fin 1, Fin 0)) (exec0 ())) = Fin 0
   \<and> spec_absolute_delta
        (c_of (IntT 8 True) 1 32767 (rand_const 0) (run0 1) (kernel_const (NaN, Fin 0))
           (kernel_const (Fin 1, Fin 0)) (exec0 ()))
        (c_baseline_of (IntT 8 True) 1 32767 (rand_const 0) (kernel_const (Fin 1, Fin 0))
           (exec0 ())) = NaN"
  by (simp add: eval_simps)

section \<open>The function kind and the precision of the comparison\<close>

text \<open>
  C9. The function kind is not read: two runs of \<^verbatim>\<open>measure\<close> that differ in nothing
  but the kind give the same counters (and the same calls and final state).
\<close>

theorem function_kind_unobserved:
  "measure_bm T d function_kind RM rnd st metric baseline x =
   measure_bm T d function_kind' RM rnd st metric baseline x"
  by (simp add: measure_bm_def)

text \<open>
  The three kinds on one run.
\<close>

theorem function_kind_unobserved_witness:
  "measure_bm (FloatT binary32) 2 distance_k 32767 (rand_const 1) (run0 3)
     kernel_counting (kernel_const (Fin 1, Fin 2)) (exec0 0) =
   measure_bm (FloatT binary32) 2 complex_dot_k 32767 (rand_const 1) (run0 3)
     kernel_counting (kernel_const (Fin 1, Fin 2)) (exec0 0)
   \<and> measure_bm (FloatT binary32) 2 distance_k 32767 (rand_const 1) (run0 3)
     kernel_counting (kernel_const (Fin 1, Fin 2)) (exec0 0) =
   measure_bm (FloatT binary32) 2 haversine_k 32767 (rand_const 1) (run0 3)
     kernel_counting (kernel_const (Fin 1, Fin 2)) (exec0 0)"
  using function_kind_unobserved [of "FloatT binary32" 2 distance_k 32767 "rand_const 1" "run0 3"
      kernel_counting "kernel_const (Fin 1, Fin 2)" "exec0 0" complex_dot_k]
    function_kind_unobserved [of "FloatT binary32" 2 distance_k 32767 "rand_const 1" "run0 3"
      kernel_counting "kernel_const (Fin 1, Fin 2)" "exec0 0" haversine_k]
  by simp

text \<open>
  C10. The reference value is the sum of the two 64-bit slots the baseline left,
  formed as a double and then narrowed to the 32-bit float; the contender's scalar is
  made in the same way from the buffer of its last call. Both are values of the 32-bit
  format (narrowing them again changes nothing), and the two accuracy counters are
  computed from these narrowed values.
\<close>

theorem accuracy_over_f32:
  "(let pair = randomize T d RM rnd;
        w1 = snd (baseline (world x) (a pair) (b pair) (dimensions d) (Fin 0, Fin 0));
        rb = results_of baseline d pair (world x);
        rc = results_of metric d pair (world_after metric d pair (max_iterations st - 1) w1);
        c_baseline = c_baseline_of T d RM rnd baseline x;
        c = c_of T d RM rnd st metric baseline x;
        r = measure_bm T d k RM rnd st metric baseline x
    in c_baseline = fcast binary32 (fadd binary64 (fst rb) (snd rb))
       \<and> c = (if max_iterations st = 0 then Fin 0
               else fcast binary32 (fadd binary64 (fst rc) (snd rc)))
       \<and> fcast binary32 c_baseline = c_baseline
       \<and> fcast binary32 c = c
       \<and> abs_delta_of r =
           (if fgt (fabs (fsub binary64 c c_baseline)) (fround binary64 (1 / 10000))
            then fabs (fsub binary64 c c_baseline) else Fin 0)
       \<and> relative_error_of r =
           (if fne (abs_delta_of r) (Fin 0) \<and> fne c_baseline (Fin 0)
            then fdiv binary64 (abs_delta_of r) c_baseline else Fin 0))"
proof -
  have p: "0 < prec binary32" by (simp add: binary32_def)
  show ?thesis
    unfolding Let_def
    by (simp add: c_baseline_of_eq c_of_eq folded_def fcast_idem [OF p] abs_delta_of_eq
        relative_error_of_def abs_delta_of_def measure_bm_counters Let_def)
qed

text \<open>
  A baseline that writes \<open>2^24\<close> and a contender that writes \<open>2^24 + 1\<close>: the doubles
  differ by 1, both narrow to \<open>2^24\<close>, and the run reports a delta of 0.
\<close>

theorem accuracy_over_f32_witness:
  "c_baseline_of (IntT 8 True) 1 32767 (rand_const 0) (kernel_const (Fin 16777216, Fin 0))
      (exec0 ()) = Fin 16777216
   \<and> c_of (IntT 8 True) 1 32767 (rand_const 0) (run0 1) (kernel_const (Fin 16777217, Fin 0))
        (kernel_const (Fin 16777216, Fin 0)) (exec0 ()) = Fin 16777216
   \<and> abs_delta_of (measure_bm (IntT 8 True) 1 distance_k 32767 (rand_const 0) (run0 1)
        (kernel_const (Fin 16777217, Fin 0)) (kernel_const (Fin 16777216, Fin 0)) (exec0 ()))
       = Fin 0
   \<and> relative_error_of (measure_bm (IntT 8 True) 1 distance_k 32767 (rand_const 0) (run0 1)
        (kernel_const (Fin 16777217, Fin 0)) (kernel_const (Fin 16777216, Fin 0)) (exec0 ()))
       = Fin 0
   \<and> fabs (fsub binary64 (fadd binary64 (Fin 16777217) (Fin 0))
        (fadd binary64 (Fin 16777216) (Fin 0))) = Fin 1"
proof -
  have v: "fround binary64 16777217 = Fin 16777217" "fround binary64 16777216 = Fin 16777216"
    "fround binary32 16777217 = Fin 16777216" "fround binary32 16777216 = Fin 16777216"
    "fround binary64 1 = Fin 1"
    by (simp_all add: fround_def ilog2.simps binary64_def binary32_def pow2_def rne_def Let_def)
  show ?thesis
    using accuracy_over_f32 [of "IntT 8 True" 1 32767 "rand_const 0"
        "kernel_const (Fin 16777216, Fin 0)" "exec0 ()" "kernel_const (Fin 16777217, Fin 0)"
        "run0 1" distance_k]
    by (simp add: Let_def results_of_def kernel_const_def run0_def exec0_def v fgt_def
        tol_value)
qed

section \<open>Registration and the entry point\<close>

text \<open>
  C6. A call of \<^verbatim>\<open>register_\<close> adds exactly one case to the registry, after the ones
  already there: its dimension is 1536, its minimum time 10 seconds, its thread count the
  hardware concurrency, its name the given name followed by \<^verbatim>\<open>_1536d\<close>. The case sized
  by bytes, which follows the \<^verbatim>\<open>return\<close>, is never added.
\<close>

theorem register_one_case:
  "register_bm scalar_at function_kind hc name distance_func baseline_func registry =
     registry @
       [\<lparr>bench_name = name @ ''_1536d'', bench_scalar = scalar_at, bench_dimensions = 1536,
         bench_kind = function_kind, bench_metric = distance_func,
         bench_baseline = baseline_func, bench_MinTime = 10, bench_Threads = hc\<rparr>]"
  by (simp add: register_bm_def Let_def RegisterBenchmark_def dimensions_def to_string_1536)

text \<open>
  The first registration of the portable tier, into an empty registry on a machine with 8
  hardware threads.
\<close>

theorem register_one_case_witness:
  "register_bm simsimd_f16_t distance_k 8 ''serial_f16_dot'' ''simsimd_dot_f16_serial''
     ''simsimd_dot_f16_accurate'' [] =
     [\<lparr>bench_name = ''serial_f16_dot_1536d'', bench_scalar = simsimd_f16_t,
       bench_dimensions = 1536, bench_kind = distance_k,
       bench_metric = ''simsimd_dot_f16_serial'',
       bench_baseline = ''simsimd_dot_f16_accurate'', bench_MinTime = 10,
       bench_Threads = 8\<rparr>]"
  using register_one_case [of simsimd_f16_t distance_k 8 "''serial_f16_dot''"
      "''simsimd_dot_f16_serial''" "''simsimd_dot_f16_accurate''" "[]"]
  by simp

text \<open>
  C8. When the engine reports unrecognized arguments, \<^verbatim>\<open>main\<close> returns 1 with no
  case registered and no call to run benchmarks made; otherwise it returns 0, after it
  handed every registered case to \<^verbatim>\<open>RunSpecifiedBenchmarks\<close> and shut the engine down.
\<close>

theorem main_exit_code:
  "(ReportUnrecognizedArguments eng (Initialize eng argv) \<longrightarrow>
      fst (main cfg eng argv) = 1
      \<and> registered (snd (main cfg eng argv)) = []
      \<and> engine_calls (snd (main cfg eng argv)) = [])
   \<and> (\<not> ReportUnrecognizedArguments eng (Initialize eng argv) \<longrightarrow>
      fst (main cfg eng argv) = 0
      \<and> engine_calls (snd (main cfg eng argv)) =
          [RunSpecifiedBenchmarks (registered (snd (main cfg eng argv))), Shutdown])"
  by (simp add: main_def Let_def)

text \<open>
  An unknown flag, and a flag of the engine's own.
\<close>

theorem main_exit_code_witness:
  "ReportUnrecognizedArguments (gbench 8) (Initialize (gbench 8) [''bench'', ''--bogus''])
   \<and> fst (main no_targets (gbench 8) [''bench'', ''--bogus'']) = 1
   \<and> registered (snd (main no_targets (gbench 8) [''bench'', ''--bogus''])) = []
   \<and> engine_calls (snd (main no_targets (gbench 8) [''bench'', ''--bogus''])) = []
   \<and> \<not> ReportUnrecognizedArguments (gbench 8)
        (Initialize (gbench 8) [''bench'', ''--benchmark_filter=dot''])
   \<and> fst (main no_targets (gbench 8) [''bench'', ''--benchmark_filter=dot'']) = 0
   \<and> engine_calls (snd (main no_targets (gbench 8) [''bench'', ''--benchmark_filter=dot''])) =
       [RunSpecifiedBenchmarks
          (registered (snd (main no_targets (gbench 8) [''bench'', ''--benchmark_filter=dot'']))),
        Shutdown]"
proof -
  have a: "ReportUnrecognizedArguments (gbench 8) (Initialize (gbench 8) [''bench'', ''--bogus''])"
    by (simp add: gbench_def)
  have b: "\<not> ReportUnrecognizedArguments (gbench 8)
        (Initialize (gbench 8) [''bench'', ''--benchmark_filter=dot''])"
    by (simp add: gbench_def)
  show ?thesis
    using main_exit_code [of "gbench 8" "[''bench'', ''--bogus'']" no_targets]
      main_exit_code [of "gbench 8" "[''bench'', ''--benchmark_filter=dot'']" no_targets] a b
    by blast
qed

end
